theory Spec2Isabelle
  imports Main "HOL-Library.Word"
begin

section \<open>secureconfig: an encrypted key-value store in a binary container\<close>

text \<open>
  The development follows the binary-container version of package \<open>secureconfig\<close>
  (magic header \<open>SCFG\<close>, version 1, length-prefixed entries). Go strings and byte
  slices are both sequences of bytes, modelled as \<open>string\<close> (a list of 8-bit
  characters); the conversions \<open>string(b)\<close> and \<open>[]byte(s)\<close> are the identity.
  Go's \<open>int\<close> is taken to be 64 bits wide, so offsets into a byte slice never wrap
  and are modelled as \<open>nat\<close>; \<open>uint32\<close> is \<open>32 word\<close>.
\<close>

subsection \<open>Errors\<close>

text \<open>
  One constructor per \<open>fmt.Errorf\<close> of the source, and \<open>Panic\<close> for a run-time
  panic (nil dereference, slice bounds out of range).
\<close>

datatype error =
    FailedToGenerateKey
  | KeyNotFoundInDatabase
  | FailedToParseKey
  | FailedToCreateCipher
  | FailedToCreateGCM
  | FailedToEncryptKey error
  | FailedToEncryptValue error
  | KeyNotFound string
  | FailedToGenerateNonce
  | CiphertextTooShort
  | FailedToDecrypt
  | FailedToReadConfigFile
  | FileTooShort
  | InvalidFileFormat
  | UnsupportedVersion "32 word"
  | FileTooShortForEntryCount
  | FileTooShortForKeyLength
  | FileTooShortForKeyData
  | FileTooShortForValueLength
  | FileTooShortForValueData
  | FailedToCreateDirectory
  | FailedToWriteConfigFile
  | Panic

subsection \<open>Library functions the package calls\<close>

text \<open>
  \<open>encoding/base64\<close>, \<open>StdEncoding\<close>: the alphabet of RFC 4648 with \<open>=\<close> padding.
\<close>

definition encodeStd :: string where
  "encodeStd = ''ABCDEFGHIJKLMNOPQRSTUVWXYZabcdefghijklmnopqrstuvwxyz0123456789+/''"

definition enc64 :: "nat \<Rightarrow> char" where
  "enc64 n = encodeStd ! (n mod 64)"

definition dec64 :: "char \<Rightarrow> nat option" where
  "dec64 c = map_of (zip encodeStd [0..<64]) c"

fun EncodeToString :: "string \<Rightarrow> string" where
  "EncodeToString [] = []"
| "EncodeToString [a] =
     [enc64 (of_char a div 4), enc64 ((of_char a mod 4) * 16), CHR ''='', CHR ''='']"
| "EncodeToString [a, b] =
     [enc64 (of_char a div 4), enc64 ((of_char a mod 4) * 16 + of_char b div 16),
      enc64 ((of_char b mod 16) * 4), CHR ''='']"
| "EncodeToString (a # b # c # rest) =
     [enc64 (of_char a div 4), enc64 ((of_char a mod 4) * 16 + of_char b div 16),
      enc64 ((of_char b mod 16) * 4 + of_char c div 64), enc64 (of_char c mod 64)]
     @ EncodeToString rest"

text \<open>
  Decoding works on quanta of four characters; padding is accepted only at the end
  of the input; the unused low bits of a padded quantum are dropped.
\<close>

fun decodeQuanta :: "string \<Rightarrow> string option" where
  "decodeQuanta [] = Some []"
| "decodeQuanta [a, b, c, d] =
     (if c = CHR ''='' \<and> d = CHR ''='' then
        (case (dec64 a, dec64 b) of
           (Some x, Some y) \<Rightarrow> Some [char_of (x * 4 + y div 16)]
         | _ \<Rightarrow> None)
      else if d = CHR ''='' then
        (case (dec64 a, dec64 b, dec64 c) of
           (Some x, Some y, Some z) \<Rightarrow>
             Some [char_of (x * 4 + y div 16), char_of ((y mod 16) * 16 + z div 4)]
         | _ \<Rightarrow> None)
      else
        (case (dec64 a, dec64 b, dec64 c, dec64 d) of
           (Some x, Some y, Some z, Some u) \<Rightarrow>
             Some [char_of (x * 4 + y div 16), char_of ((y mod 16) * 16 + z div 4),
                   char_of ((z mod 4) * 64 + u)]
         | _ \<Rightarrow> None))"
| "decodeQuanta (a # b # c # d # rest) =
     (case (dec64 a, dec64 b, dec64 c, dec64 d) of
        (Some x, Some y, Some z, Some u) \<Rightarrow>
          (case decodeQuanta rest of
             Some bs \<Rightarrow>
               Some (char_of (x * 4 + y div 16) # char_of ((y mod 16) * 16 + z div 4)
                     # char_of ((z mod 4) * 64 + u) # bs)
           | None \<Rightarrow> None)
      | _ \<Rightarrow> None)"
| "decodeQuanta _ = None"

text \<open>\<open>DecodeString\<close> ignores carriage returns and line feeds; \<open>None\<close> is \<open>CorruptInputError\<close>.\<close>

definition DecodeString :: "string \<Rightarrow> string option" where
  "DecodeString s =
     decodeQuanta (filter (\<lambda>c. c \<noteq> CHR 0x0A \<and> c \<noteq> CHR 0x0D) s)"

text \<open>
  \<open>encoding/binary\<close>, \<open>BigEndian\<close>. \<open>Uint32 b\<close> panics (\<open>None\<close>) when \<open>b\<close> has fewer
  than four bytes; \<open>PutUint32\<close> is given as the four bytes it writes.
\<close>

definition Uint32 :: "string \<Rightarrow> 32 word option" where
  "Uint32 b =
     (case b of
        b0 # b1 # b2 # b3 # _ \<Rightarrow>
          Some (word_of_nat (of_char b0 * 2 ^ 24 + of_char b1 * 2 ^ 16 + of_char b2 * 2 ^ 8
                             + of_char b3))
      | _ \<Rightarrow> None)"

definition PutUint32 :: "32 word \<Rightarrow> string" where
  "PutUint32 v =
     [char_of (unat v div 2 ^ 24), char_of (unat v div 2 ^ 16), char_of (unat v div 2 ^ 8),
      char_of (unat v)]"

text \<open>
  The slice expression \<open>data[lo:hi]\<close>: a panic (\<open>None\<close>) unless \<open>lo \<le> hi \<le> len(data)\<close>
  (the slices of this package have their capacity equal to their length).
\<close>

definition subslice :: "string \<Rightarrow> nat \<Rightarrow> nat \<Rightarrow> string option" where
  "subslice data lo hi =
     (if lo \<le> hi \<and> hi \<le> length data then Some (take (hi - lo) (drop lo data)) else None)"

text \<open>\<open>fmt.Sprintf("%x", b)\<close> on a byte slice: two lower-case hex digits per byte.\<close>

definition hexdigit :: "nat \<Rightarrow> char" where
  "hexdigit n = ''0123456789abcdef'' ! (n mod 16)"

definition Sprintf_x :: "string \<Rightarrow> string" where
  "Sprintf_x b = concat (map (\<lambda>c. [hexdigit (of_char c div 16), hexdigit (of_char c mod 16)]) b)"

text \<open>
  \<open>cipher.AEAD\<close> is an interface; a value of it is a record of its methods.
  \<open>Seal dst nonce plaintext additionalData\<close> returns the extended slice,
  \<open>Open dst nonce ciphertext additionalData\<close> returns \<open>None\<close> for its error.
\<close>

record AEAD =
  NonceSize :: nat
  Seal :: "string \<Rightarrow> string \<Rightarrow> string \<Rightarrow> string \<Rightarrow> string"
  Open :: "string \<Rightarrow> string \<Rightarrow> string \<Rightarrow> string \<Rightarrow> string option"

text \<open>
  The contract of an AEAD the package relies on: sealing appends to \<open>dst\<close>, and
  opening what was sealed under the same nonce gives the plaintext back.
\<close>

definition seal_appends :: "AEAD \<Rightarrow> string \<Rightarrow> string \<Rightarrow> bool" where
  "seal_appends g nonce p = (Seal g nonce nonce p [] = nonce @ Seal g [] nonce p [])"

definition open_inverts :: "AEAD \<Rightarrow> string \<Rightarrow> string \<Rightarrow> bool" where
  "open_inverts g nonce p = (Open g [] nonce (Seal g [] nonce p []) [] = Some p)"

definition aead_ok :: "AEAD \<Rightarrow> bool" where
  "aead_ok g =
     (\<forall>nonce p. length nonce = NonceSize g \<longrightarrow> seal_appends g nonce p \<and> open_inverts g nonce p)"

subsection \<open>The environment: random source and file system\<close>

text \<open>
  \<open>rand\<close> holds the bytes \<open>crypto/rand.Reader\<close> will deliver; \<open>files\<close> maps a path to
  the content of the file there; \<open>mkdir_ok\<close> and \<open>write_ok\<close> say whether
  \<open>os.MkdirAll\<close> and \<open>os.WriteFile\<close> succeed.
\<close>

record world =
  rand :: string
  files :: "string \<rightharpoonup> string"
  mkdir_ok :: bool
  write_ok :: bool

definition ReadFull :: "world \<Rightarrow> nat \<Rightarrow> string option \<times> world" where
  "ReadFull w n =
     (if n \<le> length (rand w) then (Some (take n (rand w)), w\<lparr>rand := drop n (rand w)\<rparr>)
      else (None, w\<lparr>rand := []\<rparr>))"

subsection \<open>The store\<close>

record Config =
  ConfigFile :: string
  Key :: string
  GCM :: "AEAD option"
  DB :: "string \<rightharpoonup> string"

text \<open>\<open>Encrypt\<close>: draw a nonce, seal with the nonce as destination prefix.\<close>

definition Encrypt :: "Config \<Rightarrow> world \<Rightarrow> string \<Rightarrow> (error + string) \<times> world" where
  "Encrypt c w v =
     (case GCM c of
        None \<Rightarrow> (Inl Panic, w)
      | Some g \<Rightarrow>
          (case ReadFull w (NonceSize g) of
             (None, w') \<Rightarrow> (Inl FailedToGenerateNonce, w')
           | (Some nonce, w') \<Rightarrow> (Inr (Seal g nonce nonce v []), w')))"

text \<open>\<open>Decrypt\<close>: split at the nonce size, open.\<close>

definition Decrypt :: "Config \<Rightarrow> string \<Rightarrow> error + string" where
  "Decrypt c data =
     (case GCM c of
        None \<Rightarrow> Inl Panic
      | Some g \<Rightarrow>
          (let nonceSize = NonceSize g in
           if length data < nonceSize then Inl CiphertextTooShort
           else
             (case Open g [] (take nonceSize data) (drop nonceSize data) [] of
                None \<Rightarrow> Inl FailedToDecrypt
              | Some plaintext \<Rightarrow> Inr plaintext)))"

subsection \<open>Ranging over a Go map\<close>

text \<open>
  \<open>for k, v := range c.DB\<close> visits every entry once, in an order the runtime
  chooses afresh for each loop. The order is an explicit argument of every function
  that ranges over the map: \<open>ks\<close> is the sequence in which the keys are produced,
  \<open>map_range db ks\<close> says that \<open>ks\<close> is a possible order for \<open>db\<close>, and
  \<open>range_over db ks\<close> is the sequence of entries the loop body sees.
\<close>

definition map_range :: "(string \<rightharpoonup> string) \<Rightarrow> string list \<Rightarrow> bool" where
  "map_range db ks = (distinct ks \<and> set ks = dom db)"

definition range_over :: "(string \<rightharpoonup> string) \<Rightarrow> string list \<Rightarrow> (string \<times> string) list" where
  "range_over db ks = List.map_filter (\<lambda>k. map_option (Pair k) (db k)) ks"

subsection \<open>The container\<close>

definition MagicHeader :: string where
  "MagicHeader = ''SCFG''"

definition Version :: "32 word" where
  "Version = 1"

text \<open>
  \<open>findDataFile\<close>: the file in the current directory if it exists there, and the
  same name as the fallback (the branch for the home directory is commented out in
  the source). Its progress messages on standard output are not modelled.
\<close>

definition findDataFile :: "world \<Rightarrow> string \<Rightarrow> string" where
  "findDataFile w filename = (if files w filename \<noteq> None then filename else filename)"

text \<open>
  The bytes \<open>writeSecretsFile\<close> collects in its buffer: header, version, entry count
  \<open>uint32(len(c.DB))\<close>, then for each entry of the range the key and the value, each
  behind its length as \<open>uint32\<close>.
\<close>

definition encodeEntry :: "string \<times> string \<Rightarrow> string" where
  "encodeEntry e =
     PutUint32 (word_of_nat (length (fst e))) @ fst e
     @ PutUint32 (word_of_nat (length (snd e))) @ snd e"

definition encodeDB :: "(string \<rightharpoonup> string) \<Rightarrow> string list \<Rightarrow> string" where
  "encodeDB db ks =
     MagicHeader @ PutUint32 Version
     @ PutUint32 (word_of_nat (length (range_over db ks)))
     @ concat (map encodeEntry (range_over db ks))"

definition writeSecretsFile :: "Config \<Rightarrow> string list \<Rightarrow> world \<Rightarrow> error option \<times> world" where
  "writeSecretsFile c ks w =
     (let filename = findDataFile w (ConfigFile c) in
      if \<not> mkdir_ok w then (Some FailedToCreateDirectory, w)
      else
        (let buf = encodeDB (DB c) ks in
         if \<not> write_ok w then (Some FailedToWriteConfigFile, w)
         else (None, w\<lparr>files := (files w)(filename \<mapsto> buf)\<rparr>)))"

text \<open>
  \<open>loadDB\<close>. \<open>readUint32 data offset\<close> is
  \<open>binary.BigEndian.Uint32(data[offset : offset+4])\<close>; \<open>loadEntry\<close> is the body of the
  loop over the entries, returning the key, the value and the new offset;
  \<open>loadEntries data n offset db\<close> runs the remaining \<open>n\<close> iterations. On an error
  the map keeps the entries read so far, as \<open>c.DB\<close> does.
\<close>

definition readUint32 :: "string \<Rightarrow> nat \<Rightarrow> 32 word option" where
  "readUint32 data offset = Option.bind (subslice data offset (offset + 4)) Uint32"

definition loadEntry :: "string \<Rightarrow> nat \<Rightarrow> error + (string \<times> string \<times> nat)" where
  "loadEntry data offset =
     (if length data < offset + 4 then Inl FileTooShortForKeyLength
      else
        (case readUint32 data offset of
           None \<Rightarrow> Inl Panic
         | Some keyLen \<Rightarrow>
             (let offset1 = offset + 4 in
              if length data < offset1 + unat keyLen then Inl FileTooShortForKeyData
              else
                (case subslice data offset1 (offset1 + unat keyLen) of
                   None \<Rightarrow> Inl Panic
                 | Some key \<Rightarrow>
                     (let offset2 = offset1 + unat keyLen in
                      if length data < offset2 + 4 then Inl FileTooShortForValueLength
                      else
                        (case readUint32 data offset2 of
                           None \<Rightarrow> Inl Panic
                         | Some valueLen \<Rightarrow>
                             (let offset3 = offset2 + 4 in
                              if length data < offset3 + unat valueLen
                              then Inl FileTooShortForValueData
                              else
                                (case subslice data offset3 (offset3 + unat valueLen) of
                                   None \<Rightarrow> Inl Panic
                                 | Some val \<Rightarrow>
                                     Inr (key, val, offset3 + unat valueLen)))))))))"

fun loadEntries ::
  "string \<Rightarrow> nat \<Rightarrow> nat \<Rightarrow> (string \<rightharpoonup> string) \<Rightarrow> error option \<times> (string \<rightharpoonup> string)" where
  "loadEntries data 0 offset db = (None, db)"
| "loadEntries data (Suc n) offset db =
     (case loadEntry data offset of
        Inl e \<Rightarrow> (Some e, db)
      | Inr (key, val, offset') \<Rightarrow> loadEntries data n offset' (db(key \<mapsto> val)))"

definition decodeDB ::
  "string \<Rightarrow> (string \<rightharpoonup> string) \<Rightarrow> error option \<times> (string \<rightharpoonup> string)" where
  "decodeDB data db =
     (if length data < 8 then (Some FileTooShort, db)
      else
        (case subslice data 0 4 of
           None \<Rightarrow> (Some Panic, db)
         | Some magic \<Rightarrow>
             if magic \<noteq> MagicHeader then (Some InvalidFileFormat, db)
             else
               (case readUint32 data 4 of
                  None \<Rightarrow> (Some Panic, db)
                | Some version \<Rightarrow>
                    if version \<noteq> Version then (Some (UnsupportedVersion version), db)
                    else
                      (let offset = 8 in
                       if length data < offset + 4 then (Some FileTooShortForEntryCount, db)
                       else
                         (case readUint32 data offset of
                            None \<Rightarrow> (Some Panic, db)
                          | Some numEntries \<Rightarrow>
                              loadEntries data (unat numEntries) (offset + 4) Map.empty)))))"

definition loadDB :: "Config \<Rightarrow> world \<Rightarrow> error option \<times> Config" where
  "loadDB c w =
     (let filename = findDataFile w (ConfigFile c) in
      case files w filename of
        None \<Rightarrow> (Some FailedToReadConfigFile, c)
      | Some data \<Rightarrow> (case decodeDB data (DB c) of (e, db) \<Rightarrow> (e, c\<lparr>DB := db\<rparr>)))"


subsection \<open>Operations on plaintext keys\<close>

text \<open>
  \<open>Store\<close>: seal and base64-encode the key and the value, assign the entry, write
  the file. \<open>ks\<close> is the order of the range inside \<open>writeSecretsFile\<close>. The map is
  assigned before the file is written, so a failed write leaves the new entry in
  the table.
\<close>

definition Store ::
  "Config \<Rightarrow> string list \<Rightarrow> world \<Rightarrow> string \<Rightarrow> string \<Rightarrow> error option \<times> Config \<times> world" where
  "Store c ks w key val =
     (case Encrypt c w key of
        (Inl e, w1) \<Rightarrow> (Some (FailedToEncryptKey e), c, w1)
      | (Inr encKeyBytes, w1) \<Rightarrow>
          (let encKey = EncodeToString encKeyBytes in
           case Encrypt c w1 val of
             (Inl e, w2) \<Rightarrow> (Some (FailedToEncryptValue e), c, w2)
           | (Inr encValueBytes, w2) \<Rightarrow>
               (let encValue = EncodeToString encValueBytes;
                    c' = c\<lparr>DB := (DB c)(encKey \<mapsto> encValue)\<rparr>
                in case writeSecretsFile c' ks w2 of (r, w3) \<Rightarrow> (r, c', w3))))"

text \<open>
  \<open>Retrieve\<close>: the loop over the entries in the order of the range. An entry is
  passed over (\<open>continue\<close>) when it is the reserved entry \<open>k\<close>, when its key is not
  base64, when its key does not decrypt, when the decrypted key is another one, and
  when the key matches but the value is not base64. The first entry that matches
  and has a base64 value ends the loop with the result of \<open>Decrypt\<close> on the value.
  A panic inside \<open>Decrypt\<close> (no cipher) is not an error value and ends the call.
\<close>

fun Retrieve_range :: "Config \<Rightarrow> (string \<times> string) list \<Rightarrow> string \<Rightarrow> error + string" where
  "Retrieve_range c [] key = Inl (KeyNotFound key)"
| "Retrieve_range c ((k, v) # es) key =
     (if k \<noteq> ''k'' then
        (case DecodeString k of
           None \<Rightarrow> Retrieve_range c es key
         | Some keyBytes \<Rightarrow>
             (case Decrypt c keyBytes of
                Inl err \<Rightarrow> if err = Panic then Inl Panic else Retrieve_range c es key
              | Inr decKey \<Rightarrow>
                  if decKey = key then
                    (case DecodeString v of
                       None \<Rightarrow> Retrieve_range c es key
                     | Some valueBytes \<Rightarrow> Decrypt c valueBytes)
                  else Retrieve_range c es key))
      else Retrieve_range c es key)"

definition Retrieve :: "Config \<Rightarrow> string list \<Rightarrow> string \<Rightarrow> error + string" where
  "Retrieve c ks key = Retrieve_range c (range_over (DB c) ks) key"

text \<open>\<open>ListKeys\<close>: the same scan, appending every key that decrypts.\<close>

fun ListKeys_range ::
  "Config \<Rightarrow> (string \<times> string) list \<Rightarrow> string list \<Rightarrow> error + string list" where
  "ListKeys_range c [] keys = Inr keys"
| "ListKeys_range c ((k, v) # es) keys =
     (if k \<noteq> ''k'' then
        (case DecodeString k of
           None \<Rightarrow> ListKeys_range c es keys
         | Some keyBytes \<Rightarrow>
             (case Decrypt c keyBytes of
                Inl err \<Rightarrow> if err = Panic then Inl Panic else ListKeys_range c es keys
              | Inr decKey \<Rightarrow> ListKeys_range c es (keys @ [decKey])))
      else ListKeys_range c es keys)"

definition ListKeys :: "Config \<Rightarrow> string list \<Rightarrow> error + string list" where
  "ListKeys c ks = ListKeys_range c (range_over (DB c) ks) []"

text \<open>
  \<open>Delete\<close>: the same scan; the first entry whose key decrypts to the requested key
  is removed, the file is written (its range in the order \<open>ks'\<close>) and the call
  returns.
\<close>

fun Delete_range ::
  "Config \<Rightarrow> (string \<times> string) list \<Rightarrow> string list \<Rightarrow> world \<Rightarrow> string
     \<Rightarrow> error option \<times> Config \<times> world" where
  "Delete_range c [] ks' w key = (Some (KeyNotFound key), c, w)"
| "Delete_range c ((k, v) # es) ks' w key =
     (if k \<noteq> ''k'' then
        (case DecodeString k of
           None \<Rightarrow> Delete_range c es ks' w key
         | Some keyBytes \<Rightarrow>
             (case Decrypt c keyBytes of
                Inl err \<Rightarrow> if err = Panic then (Some Panic, c, w) else Delete_range c es ks' w key
              | Inr decKey \<Rightarrow>
                  if decKey = key then
                    (let c' = c\<lparr>DB := (DB c)(k := None)\<rparr>
                     in case writeSecretsFile c' ks' w of (r, w') \<Rightarrow> (r, c', w'))
                  else Delete_range c es ks' w key))
      else Delete_range c es ks' w key)"

definition Delete ::
  "Config \<Rightarrow> string list \<Rightarrow> string list \<Rightarrow> world \<Rightarrow> string \<Rightarrow> error option \<times> Config \<times> world" where
  "Delete c ks ks' w key = Delete_range c (range_over (DB c) ks) ks' w key"

text \<open>
  An entry whose sealed key fails to open: its key is not base64, or \<open>Decrypt\<close> returns
  an error for it.
\<close>

definition key_unopened :: "Config \<Rightarrow> string \<Rightarrow> bool" where
  "key_unopened c k =
     (case DecodeString k of
        None \<Rightarrow> True
      | Some keyBytes \<Rightarrow> (case Decrypt c keyBytes of Inl err \<Rightarrow> err \<noteq> Panic | Inr _ \<Rightarrow> False))"

text \<open>
  An entry whose sealed key opens, to a plaintext key that is not the requested one.
\<close>

definition key_opens_other :: "Config \<Rightarrow> string \<Rightarrow> string \<Rightarrow> bool" where
  "key_opens_other c key k =
     (case DecodeString k of
        None \<Rightarrow> False
      | Some keyBytes \<Rightarrow>
          (case Decrypt c keyBytes of Inl err \<Rightarrow> False | Inr decKey \<Rightarrow> decKey \<noteq> key))"

text \<open>
  An entry whose sealed key decrypts to the requested key and whose stored value is
  not base64.
\<close>

definition matched_not_base64 :: "Config \<Rightarrow> string \<Rightarrow> string \<Rightarrow> bool" where
  "matched_not_base64 c key k =
     (case DecodeString k of
        None \<Rightarrow> False
      | Some keyBytes \<Rightarrow>
          Decrypt c keyBytes = Inr key
          \<and> (case DB c k of None \<Rightarrow> False | Some v \<Rightarrow> DecodeString v = None))"

text \<open>
  The entries the scan for \<open>key\<close> goes past: the reserved entry, and the three kinds
  above.
\<close>

definition passed_over :: "Config \<Rightarrow> string \<Rightarrow> string \<Rightarrow> bool" where
  "passed_over c key k =
     (k = ''k'' \<or> key_unopened c k \<or> key_opens_other c key k \<or> matched_not_base64 c key k)"

text \<open>
  What the entry stored under the sealed key \<open>ek\<close> holds, when both its key and its
  value open: the plaintext key and the plaintext value.
\<close>

definition entry_opens :: "Config \<Rightarrow> string \<Rightarrow> (string \<times> string) option" where
  "entry_opens c ek =
     (if ek = ''k'' then None
      else
        (case DB c ek of
           None \<Rightarrow> None
         | Some ev \<Rightarrow>
             (case DecodeString ek of
                None \<Rightarrow> None
              | Some keyBytes \<Rightarrow>
                  (case Decrypt c keyBytes of
                     Inl _ \<Rightarrow> None
                   | Inr decKey \<Rightarrow>
                       (case DecodeString ev of
                          None \<Rightarrow> None
                        | Some valueBytes \<Rightarrow>
                            (case Decrypt c valueBytes of
                               Inl _ \<Rightarrow> None
                             | Inr decValue \<Rightarrow> Some (decKey, decValue)))))))"

subsection \<open>Opening a store\<close>

text \<open>
  What \<open>NewConfigWithFile\<close> takes from the standard library besides the above:
  \<open>fmt.Sscanf(keyStr, "%x", &key)\<close> (the bytes scanned, \<open>None\<close> for its error),
  \<open>aes.NewCipher\<close> and \<open>cipher.NewGCM\<close>. They are parameters of the model.
\<close>

record 'b golib =
  Sscanf_x :: "string \<Rightarrow> string option"
  aes_NewCipher :: "string \<Rightarrow> 'b option"
  cipher_NewGCM :: "'b \<Rightarrow> AEAD option"

text \<open>
  The second half of \<open>NewConfigWithFile\<close>: load the table, take the key from the
  entry \<open>k\<close>, build the cipher. It leaves the environment as it is.
\<close>

definition loadKeyAndCipher :: "'b golib \<Rightarrow> Config \<Rightarrow> world \<Rightarrow> error + Config" where
  "loadKeyAndCipher L c w =
     (case loadDB c w of
        (Some e, c') \<Rightarrow> Inl e
      | (None, c') \<Rightarrow>
          (case DB c' ''k'' of
             None \<Rightarrow> Inl KeyNotFoundInDatabase
           | Some keyStr \<Rightarrow>
               (case Sscanf_x L keyStr of
                  None \<Rightarrow> Inl FailedToParseKey
                | Some key \<Rightarrow>
                    (case aes_NewCipher L key of
                       None \<Rightarrow> Inl FailedToCreateCipher
                     | Some block \<Rightarrow>
                         (case cipher_NewGCM L block of
                            None \<Rightarrow> Inl FailedToCreateGCM
                          | Some gcm \<Rightarrow> Inr (c'\<lparr>Key := key, GCM := Some gcm\<rparr>))))))"

text \<open>
  \<open>NewConfigWithFile\<close>: when the file does not exist, 32 random bytes are drawn,
  stored under \<open>k\<close> as \<open>fmt.Sprintf("%x", key)\<close>, and the file is written (\<open>ks\<close> is
  the order of that range); then the store is loaded from the file.
\<close>

definition NewConfigWithFile ::
  "'b golib \<Rightarrow> string \<Rightarrow> string list \<Rightarrow> world \<Rightarrow> (error + Config) \<times> world" where
  "NewConfigWithFile L filename ks w =
     (let c = \<lparr>ConfigFile = filename, Key = [], GCM = None, DB = Map.empty\<rparr>;
          configPath = findDataFile w (ConfigFile c)
      in if files w configPath = None then
           (case ReadFull w 32 of
              (None, w1) \<Rightarrow> (Inl FailedToGenerateKey, w1)
            | (Some key, w1) \<Rightarrow>
                (let c1 = c\<lparr>DB := (DB c)(''k'' \<mapsto> Sprintf_x key)\<rparr>
                 in case writeSecretsFile c1 ks w1 of
                      (Some e, w2) \<Rightarrow> (Inl e, w2)
                    | (None, w2) \<Rightarrow> (loadKeyAndCipher L c1 w2, w2)))
         else (loadKeyAndCipher L c w, w))"

text \<open>
  What the container format can hold: the entry count and every key and value
  length are written as \<open>uint32\<close>, so a map with \<open>2\<^sup>3\<^sup>2\<close> entries or more, or an
  entry of \<open>2\<^sup>3\<^sup>2\<close> bytes or more, has its lengths truncated on writing.
\<close>

definition fits :: "string \<times> string \<Rightarrow> bool" where
  "fits e = (length (fst e) < 2 ^ 32 \<and> length (snd e) < 2 ^ 32)"

definition encodable :: "(string \<rightharpoonup> string) \<Rightarrow> string list \<Rightarrow> bool" where
  "encodable db ks =
     (length (range_over db ks) < 2 ^ 32 \<and> list_all fits (range_over db ks))"

text \<open>The map after the assignments \<open>c.DB[key] = value\<close> for a sequence of entries.\<close>

definition store_all ::
  "(string \<rightharpoonup> string) \<Rightarrow> (string \<times> string) list \<Rightarrow> (string \<rightharpoonup> string)" where
  "store_all db es = foldl (\<lambda>m e. m(fst e \<mapsto> snd e)) db es"

subsection \<open>A small AEAD for closed examples\<close>

text \<open>
  \<open>demoAEAD\<close> has the shape of AES-GCM as the package sees it (a 12-byte nonce,
  output appended to \<open>dst\<close>, opening fails unless the tag matches) and meets
  \<open>aead_ok\<close>; the tag is the nonce followed by the associated data and \<open>!\<close>, the
  body is the reversed plaintext. It stands in for the real cipher wherever a
  closed example has to be computed.
\<close>

definition demoAEAD :: AEAD where
  "demoAEAD =
     \<lparr>NonceSize = 12,
      Seal = (\<lambda>dst nonce p ad. dst @ nonce @ ad @ ''!'' @ rev p),
      Open = (\<lambda>dst nonce ct ad.
                if take (length nonce + length ad + 1) ct = nonce @ ad @ ''!''
                then Some (dst @ rev (drop (length nonce + length ad + 1) ct))
                else None)\<rparr>"

definition noDB :: "string \<rightharpoonup> string" where
  "noDB = Map.empty"

definition demoKey :: string where
  "demoKey = ''0123456789abcdef0123456789abcdef''"

definition demoConfig :: Config where
  "demoConfig =
     \<lparr>ConfigFile = ''config'', Key = demoKey, GCM = Some demoAEAD,
      DB = noDB(''k'' \<mapsto> Sprintf_x demoKey)\<rparr>"

definition demoWorld :: world where
  "demoWorld =
     \<lparr>rand = ''nonce-no-001nonce-no-002nonce-no-003nonce-no-004'',
      files = Map.empty, mkdir_ok = True, write_ok = True\<rparr>"

text \<open>Closed examples of a table, an order of its keys, and an oversized key.\<close>

definition demoDB :: "string \<rightharpoonup> string" where
  "demoDB = noDB(''k'' \<mapsto> ''00ff'', ''QUJD'' \<mapsto> ''REVG'')"

definition demoOrder :: "string list" where
  "demoOrder = [''QUJD'', ''k'']"

definition bigKey :: string where
  "bigKey = replicate (2 ^ 32) (CHR ''a'')"

definition bigDB :: "string \<rightharpoonup> string" where
  "bigDB = noDB(bigKey \<mapsto> [])"

definition bigDB_reloaded :: "string \<rightharpoonup> string" where
  "bigDB_reloaded = noDB([] \<mapsto> replicate 1633771873 (CHR ''a''))"

text \<open>
  A run of the store: \<open>api.key\<close> is stored with the value \<open>old\<close>, stored again with
  the value \<open>new\<close>, and deleted once. The orders given are possible orders of the
  ranges.
\<close>

definition sealedKey1 :: string where
  "sealedKey1 = EncodeToString (Seal demoAEAD ''nonce-no-001'' ''nonce-no-001'' ''api.key'' [])"

definition sealedOld :: string where
  "sealedOld = EncodeToString (Seal demoAEAD ''nonce-no-002'' ''nonce-no-002'' ''old'' [])"

definition sealedKey2 :: string where
  "sealedKey2 = EncodeToString (Seal demoAEAD ''nonce-no-003'' ''nonce-no-003'' ''api.key'' [])"

definition sealedNew :: string where
  "sealedNew = EncodeToString (Seal demoAEAD ''nonce-no-004'' ''nonce-no-004'' ''new'' [])"

definition stored1 :: "error option \<times> Config \<times> world" where
  "stored1 = Store demoConfig [sealedKey1, ''k''] demoWorld ''api.key'' ''old''"

definition stored2 :: "error option \<times> Config \<times> world" where
  "stored2 = Store (fst (snd stored1)) [sealedKey1, sealedKey2, ''k''] (snd (snd stored1))
               ''api.key'' ''new''"

definition deleted :: "error option \<times> Config \<times> world" where
  "deleted = Delete (fst (snd stored2)) [sealedKey1, sealedKey2, ''k''] [sealedKey2, ''k'']
               (snd (snd stored2)) ''api.key''"

definition config1 :: Config where "config1 = fst (snd stored1)"

definition world1 :: world where "world1 = snd (snd stored1)"

definition config2 :: Config where "config2 = fst (snd stored2)"

definition world2 :: world where "world2 = snd (snd stored2)"

definition config3 :: Config where "config3 = fst (snd deleted)"

text \<open>
  Tables as a damaged file gives them. In the first, before the entry for \<open>api.key\<close>
  whose sealed value has a changed tag byte, the range meets a key that is not
  base64, a key too short to decrypt, the reserved entry, an intact entry for
  \<open>db.host\<close>, and an entry for \<open>api.key\<close> whose value is not base64. In the second the
  only value for \<open>api.key\<close> is not base64.
\<close>

definition tamperedOld :: string where
  "tamperedOld = EncodeToString (''nonce-no-002'' @ ''nonce-no-00X'' @ ''!'' @ ''dlo'')"

definition shortKey :: string where
  "shortKey = EncodeToString ''short''"

definition sealedHost :: string where
  "sealedHost = EncodeToString (Seal demoAEAD ''nonce-no-005'' ''nonce-no-005'' ''db.host'' [])"

definition sealedLocalhost :: string where
  "sealedLocalhost
     = EncodeToString (Seal demoAEAD ''nonce-no-006'' ''nonce-no-006'' ''localhost'' [])"

definition tamperedConfig :: Config where
  "tamperedConfig =
     demoConfig\<lparr>DB := (DB demoConfig)
       (''junk!'' \<mapsto> ''x'', shortKey \<mapsto> ''y'', sealedHost \<mapsto> sealedLocalhost,
        sealedKey2 \<mapsto> ''???'', sealedKey1 \<mapsto> tamperedOld)\<rparr>"

definition tamperedOrder :: "string list" where
  "tamperedOrder = [''junk!'', shortKey, ''k'', sealedHost, sealedKey2, sealedKey1]"

definition corruptConfig :: Config where
  "corruptConfig = demoConfig\<lparr>DB := (DB demoConfig)(sealedKey1 \<mapsto> ''???'')\<rparr>"

text \<open>
  Stand-ins for the library functions that \<open>NewConfigWithFile\<close> takes as parameters,
  and an environment with no file yet.
\<close>

definition hexval :: "char \<Rightarrow> nat option" where
  "hexval c = map_of (zip ''0123456789abcdef'' [0..<16]) c"

fun unhex :: "string \<Rightarrow> string option" where
  "unhex [] = Some []"
| "unhex [a] = None"
| "unhex (a # b # rest) =
     (case (hexval a, hexval b, unhex rest) of
        (Some x, Some y, Some bs) \<Rightarrow> Some (char_of (x * 16 + y) # bs)
      | _ \<Rightarrow> None)"

definition demoLib :: "string golib" where
  "demoLib =
     \<lparr>Sscanf_x = unhex,
      aes_NewCipher = (\<lambda>key. if length key = 32 then Some key else None),
      cipher_NewGCM = (\<lambda>block. Some demoAEAD)\<rparr>"

definition freshWorld :: world where
  "freshWorld = \<lparr>rand = demoKey @ ''nonce-no-001nonce-no-002'', files = Map.empty,
                  mkdir_ok = True, write_ok = True\<rparr>"

section \<open>Properties\<close>

subsection \<open>Sealing and opening\<close>

lemma Encrypt_Some:
  assumes "GCM c = Some g" and "NonceSize g \<le> length (rand w)"
  shows "Encrypt c w p =
     (Inr (Seal g (take (NonceSize g) (rand w)) (take (NonceSize g) (rand w)) p []),
      w\<lparr>rand := drop (NonceSize g) (rand w)\<rparr>)"
  using assms by (simp add: Encrypt_def ReadFull_def)

lemma Decrypt_sealed:
  assumes "GCM c = Some g" and "aead_ok g" and "length nonce = NonceSize g"
  shows "Decrypt c (Seal g nonce nonce p []) = Inr p"
proof -
  from assms have a: "Seal g nonce nonce p [] = nonce @ Seal g [] nonce p []"
    and b: "Open g [] nonce (Seal g [] nonce p []) [] = Some p"
    by (simp_all add: aead_ok_def seal_appends_def open_inverts_def)
  show ?thesis
    using assms(1,3) by (simp add: Decrypt_def a b)
qed

lemma demoAEAD_ok: "aead_ok demoAEAD"
  by (simp add: aead_ok_def seal_appends_def open_inverts_def demoAEAD_def)

text \<open>
  C4. Opening a freshly sealed value gives the plaintext back: whenever the random
  source can deliver a nonce, \<open>Encrypt\<close> returns a sealed value and \<open>Decrypt\<close> of it
  under the same cipher is the original plaintext.
\<close>

theorem C4_open_seal_roundtrip:
  assumes "GCM c = Some g" and "aead_ok g" and "NonceSize g \<le> length (rand w)"
  shows "\<exists>sealed w'. Encrypt c w p = (Inr sealed, w') \<and> Decrypt c sealed = Inr p"
proof -
  let ?n = "take (NonceSize g) (rand w)"
  have len: "length ?n = NonceSize g"
    using assms(3) by simp
  have "Decrypt c (Seal g ?n ?n p []) = Inr p"
    using assms(1,2) len by (rule Decrypt_sealed)
  then show ?thesis
    using Encrypt_Some [OF assms(1,3)] by simp
qed

theorem C4_open_seal_roundtrip_witness:
  "\<exists>sealed w'. Encrypt demoConfig demoWorld ''s3cret'' = (Inr sealed, w')
     \<and> Decrypt demoConfig sealed = Inr ''s3cret''"
proof -
  have 1: "GCM demoConfig = Some demoAEAD"
    by (simp add: demoConfig_def)
  have 2: "NonceSize demoAEAD \<le> length (rand demoWorld)"
    by (simp add: demoAEAD_def demoWorld_def)
  show ?thesis
    using C4_open_seal_roundtrip [OF 1 demoAEAD_ok 2] .
qed

text \<open>
  C5. Two sealings of the same plaintext under the same cipher differ whenever the
  two nonces drawn from the random source differ: the nonce is the prefix of the
  sealed bytes.
\<close>

theorem C5_fresh_nonce_distinct_output:
  assumes "GCM c = Some g" and "aead_ok g"
    and "Encrypt c w1 p = (Inr s1, w1')" and "Encrypt c w2 p = (Inr s2, w2')"
    and "take (NonceSize g) (rand w1) \<noteq> take (NonceSize g) (rand w2)"
  shows "s1 \<noteq> s2"
proof -
  let ?n1 = "take (NonceSize g) (rand w1)" and ?n2 = "take (NonceSize g) (rand w2)"
  have l1: "NonceSize g \<le> length (rand w1)" and l2: "NonceSize g \<le> length (rand w2)"
    using assms(1,3,4) by (auto simp: Encrypt_def ReadFull_def split: if_splits)
  have s1: "s1 = Seal g ?n1 ?n1 p []" and s2: "s2 = Seal g ?n2 ?n2 p []"
    using assms(3,4) Encrypt_Some [OF assms(1) l1] Encrypt_Some [OF assms(1) l2] by simp_all
  have a1: "Seal g ?n1 ?n1 p [] = ?n1 @ Seal g [] ?n1 p []"
    and a2: "Seal g ?n2 ?n2 p [] = ?n2 @ Seal g [] ?n2 p []"
    using assms(2) l1 l2 by (simp_all add: aead_ok_def seal_appends_def)
  have "length ?n1 = length ?n2"
    using l1 l2 by simp
  then show ?thesis
    using assms(5) by (simp add: s1 s2 a1 a2)
qed

theorem C5_fresh_nonce_distinct_output_witness:
  "fst (Encrypt demoConfig demoWorld ''s3cret'')
     \<noteq> fst (Encrypt demoConfig (snd (Encrypt demoConfig demoWorld ''s3cret'')) ''s3cret'')"
proof -
  let ?w1 = "demoWorld" and ?w2 = "demoWorld\<lparr>rand := drop 12 (rand demoWorld)\<rparr>"
  let ?s1 = "Seal demoAEAD (take 12 (rand ?w1)) (take 12 (rand ?w1)) ''s3cret'' []"
  let ?s2 = "Seal demoAEAD (take 12 (rand ?w2)) (take 12 (rand ?w2)) ''s3cret'' []"
  have g: "GCM demoConfig = Some demoAEAD"
    by (simp add: demoConfig_def)
  have e1: "Encrypt demoConfig ?w1 ''s3cret'' = (Inr ?s1, ?w2)"
    using Encrypt_Some [OF g, of ?w1 "''s3cret''"] by (simp add: demoAEAD_def demoWorld_def)
  have e2: "Encrypt demoConfig ?w2 ''s3cret'' = (Inr ?s2, ?w2\<lparr>rand := drop 12 (rand ?w2)\<rparr>)"
    using Encrypt_Some [OF g, of ?w2 "''s3cret''"] by (simp add: demoAEAD_def demoWorld_def)
  have d: "take (NonceSize demoAEAD) (rand ?w1) \<noteq> take (NonceSize demoAEAD) (rand ?w2)"
    by (simp add: demoAEAD_def demoWorld_def)
  have "?s1 \<noteq> ?s2"
    using C5_fresh_nonce_distinct_output [OF g demoAEAD_ok e1 e2 d] .
  then show ?thesis
    by (simp add: e1 e2)
qed

subsection \<open>The container: reading back what was written\<close>

lemma length_PutUint32 [simp]: "length (PutUint32 v) = 4"
  by (simp add: PutUint32_def)

lemma be32_nat:
  fixes n :: nat
  assumes "n < 2 ^ 32"
  shows "(n div 2 ^ 24 mod 256) * 2 ^ 24 + (n div 2 ^ 16 mod 256) * 2 ^ 16
         + (n div 2 ^ 8 mod 256) * 2 ^ 8 + n mod 256 = n"
proof -
  define a where "a = n div 256"
  define b where "b = a div 256"
  define c where "c = b div 256"
  have n: "n = a * 256 + n mod 256"
    by (simp add: a_def)
  have a: "a = b * 256 + a mod 256"
    by (simp add: b_def)
  have b: "b = c * 256 + b mod 256"
    by (simp add: c_def)
  have b': "b = n div 65536"
    by (simp add: b_def a_def div_mult2_eq)
  have c': "c = n div 16777216"
    by (simp add: c_def b' div_mult2_eq)
  have "c < 256"
    using assms by (simp add: c' less_mult_imp_div_less)
  then have c: "c mod 256 = c"
    by simp
  have "c * 16777216 + (b mod 256) * 65536 + (a mod 256) * 256 + n mod 256 = n"
    using n a b by linarith
  then show ?thesis
    by (simp add: c a_def [symmetric] b' [symmetric] c' [symmetric])
qed

lemma Uint32_PutUint32 [simp]: "Uint32 (PutUint32 v @ rest) = Some v"
proof -
  have "unat v < 2 ^ 32"
    using unsigned_less [of v] by simp
  then have e: "(of_char (char_of (unat v div 2 ^ 24)) :: nat) * 2 ^ 24
       + of_char (char_of (unat v div 2 ^ 16)) * 2 ^ 16
       + of_char (char_of (unat v div 2 ^ 8)) * 2 ^ 8
       + of_char (char_of (unat v)) = unat v"
    using be32_nat [of "unat v"] by (simp only: of_char_of)
  show ?thesis
    unfolding Uint32_def PutUint32_def
    by (simp only: append_Cons list.case e) simp
qed

lemma slice_middle: "subslice (a @ b @ c) (length a) (length a + length b) = Some b"
  by (simp add: subslice_def)

lemma slice_append: "hi \<le> length data \<Longrightarrow> subslice (data @ extra) lo hi = subslice data lo hi"
  by (simp add: subslice_def)

lemma readUint32_middle: "readUint32 (a @ PutUint32 v @ c) (length a) = Some v"
proof -
  have "subslice (a @ PutUint32 v @ c) (length a) (length a + 4) = Some (PutUint32 v)"
    using slice_middle [of a "PutUint32 v" c] by simp
  then show ?thesis
    using Uint32_PutUint32 [of v "[]"] by (simp add: readUint32_def)
qed

lemma readUint32_append:
  "offset + 4 \<le> length data \<Longrightarrow> readUint32 (data @ extra) offset = readUint32 data offset"
  by (simp add: readUint32_def slice_append)

lemma list4: "length xs = 4 \<Longrightarrow> \<exists>b0 b1 b2 b3. xs = [b0, b1, b2, b3]"
  by (simp add: numeral_eq_Suc length_Suc_conv) blast

lemma readUint32_defined:
  "offset + 4 \<le> length data \<Longrightarrow> \<exists>v. readUint32 data offset = Some v"
proof -
  assume a: "offset + 4 \<le> length data"
  then have "length (take 4 (drop offset data)) = 4"
    by simp
  then obtain b0 b1 b2 b3 where "take 4 (drop offset data) = [b0, b1, b2, b3]"
    using list4 by blast
  then show ?thesis
    using a by (simp add: readUint32_def subslice_def Uint32_def)
qed

lemma unat_len32: "n < 2 ^ 32 \<Longrightarrow> unat (word_of_nat n :: 32 word) = n"
  by (simp add: unat_of_nat)

lemma length_encodeEntry: "length (encodeEntry e) = 8 + length (fst e) + length (snd e)"
  by (simp add: encodeEntry_def)

lemma loadEntry_encoded:
  assumes "fits e"
  shows "loadEntry (pre @ encodeEntry e @ suf) (length pre)
         = Inr (fst e, snd e, length pre + length (encodeEntry e))"
proof -
  obtain k v where e: "e = (k, v)"
    by (cases e)
  let ?lk = "PutUint32 (word_of_nat (length k))" and ?lv = "PutUint32 (word_of_nat (length v))"
  let ?data = "pre @ encodeEntry e @ suf"
  have uk: "unat (word_of_nat (length k) :: 32 word) = length k"
    and uv: "unat (word_of_nat (length v) :: 32 word) = length v"
    using assms by (simp_all add: fits_def e unat_len32)
  have d1: "?data = pre @ ?lk @ (k @ ?lv @ v @ suf)"
    by (simp add: encodeEntry_def e)
  have d2: "?data = (pre @ ?lk) @ k @ (?lv @ v @ suf)"
    by (simp add: encodeEntry_def e)
  have d3: "?data = (pre @ ?lk @ k) @ ?lv @ (v @ suf)"
    by (simp add: encodeEntry_def e)
  have d4: "?data = (pre @ ?lk @ k @ ?lv) @ v @ suf"
    by (simp add: encodeEntry_def e)
  have r1: "readUint32 ?data (length pre) = Some (word_of_nat (length k))"
    unfolding d1 by (rule readUint32_middle)
  have r2: "subslice ?data (length pre + 4) (length pre + 4 + length k) = Some k"
    using slice_middle [of "pre @ ?lk" k "?lv @ v @ suf"] by (simp add: d2)
  have r3: "readUint32 ?data (length pre + 4 + length k) = Some (word_of_nat (length v))"
    using readUint32_middle [of "pre @ ?lk @ k" _ "v @ suf"] by (simp add: d3 add.assoc)
  have r4: "subslice ?data (length pre + 4 + length k + 4) (length pre + 4 + length k + 4 + length v)
            = Some v"
    using slice_middle [of "pre @ ?lk @ k @ ?lv" v suf] by (simp add: d4 add.assoc)
  have len: "length ?data = length pre + 4 + length k + 4 + length v + length suf"
    by (simp add: encodeEntry_def e)
  show ?thesis
    unfolding loadEntry_def Let_def r1 uk option.case
    by (simp only: r2 r3 r4 uk uv option.case len) (simp add: e length_encodeEntry)
qed


lemma loadEntry_append:
  assumes "loadEntry data offset = Inr r"
  shows "loadEntry (data @ extra) offset = Inr r"
proof -
  from assms have l1: "offset + 4 \<le> length data"
    by (auto simp: loadEntry_def split: if_splits)
  then obtain keyLen where r1: "readUint32 data offset = Some keyLen"
    using readUint32_defined by blast
  from assms r1 have l2: "offset + 4 + unat keyLen \<le> length data"
    by (auto simp: loadEntry_def Let_def split: if_splits)
  then obtain key where r2: "subslice data (offset + 4) (offset + 4 + unat keyLen) = Some key"
    by (simp add: subslice_def)
  from assms r1 r2 have l3: "offset + 4 + unat keyLen + 4 \<le> length data"
    by (auto simp: loadEntry_def Let_def split: if_splits)
  then obtain valueLen where r3: "readUint32 data (offset + 4 + unat keyLen) = Some valueLen"
    using readUint32_defined by blast
  from assms r1 r2 r3 have l4: "offset + 4 + unat keyLen + 4 + unat valueLen \<le> length data"
    by (auto simp: loadEntry_def Let_def split: if_splits)
  then obtain val where r4:
    "subslice data (offset + 4 + unat keyLen + 4) (offset + 4 + unat keyLen + 4 + unat valueLen)
     = Some val"
    by (simp add: subslice_def)
  from assms have r: "r = (key, val, offset + 4 + unat keyLen + 4 + unat valueLen)"
    unfolding loadEntry_def Let_def r1 option.case r2 r3 r4 using l1 l2 l3 l4 by simp
  have a1: "readUint32 (data @ extra) offset = Some keyLen"
    using l1 r1 by (simp add: readUint32_append)
  have a2: "subslice (data @ extra) (offset + 4) (offset + 4 + unat keyLen) = Some key"
    using l2 r2 by (simp add: slice_append)
  have a3: "readUint32 (data @ extra) (offset + 4 + unat keyLen) = Some valueLen"
    using l3 r3 by (simp add: readUint32_append)
  have a4: "subslice (data @ extra) (offset + 4 + unat keyLen + 4)
              (offset + 4 + unat keyLen + 4 + unat valueLen) = Some val"
    using l4 r4 by (simp add: slice_append)
  show ?thesis
    unfolding loadEntry_def Let_def a1 option.case a2 a3 a4 r using l1 l2 l3 l4 by simp
qed

lemma loadEntry_no_panic: "loadEntry data offset \<noteq> Inl Panic"
proof (cases "offset + 4 \<le> length data")
  case False
  then show ?thesis
    by (simp add: loadEntry_def)
next
  case l1: True
  then obtain keyLen where r1: "readUint32 data offset = Some keyLen"
    using readUint32_defined by blast
  show ?thesis
  proof (cases "offset + 4 + unat keyLen \<le> length data")
    case False
    then show ?thesis
      using l1 by (simp add: loadEntry_def r1 Let_def)
  next
    case l2: True
    then obtain key where r2: "subslice data (offset + 4) (offset + 4 + unat keyLen) = Some key"
      by (simp add: subslice_def)
    show ?thesis
    proof (cases "offset + 4 + unat keyLen + 4 \<le> length data")
      case False
      then show ?thesis
        using l1 l2 by (simp add: loadEntry_def r1 r2 Let_def)
    next
      case l3: True
      then obtain valueLen where r3: "readUint32 data (offset + 4 + unat keyLen) = Some valueLen"
        using readUint32_defined by blast
      show ?thesis
        using l1 l2 l3 by (simp add: loadEntry_def r1 r2 r3 Let_def subslice_def)
    qed
  qed
qed

lemma store_all_Nil [simp]: "store_all db [] = db"
  by (simp add: store_all_def)

lemma store_all_Cons [simp]: "store_all db (e # es) = store_all (db(fst e \<mapsto> snd e)) es"
  by (simp add: store_all_def)

lemma loadEntries_encoded:
  assumes "list_all fits es"
  shows "loadEntries (pre @ concat (map encodeEntry es) @ suf) (length es) (length pre) db
         = (None, store_all db es)"
  using assms
proof (induction es arbitrary: pre db)
  case Nil
  then show ?case by simp
next
  case (Cons e es)
  let ?rest = "concat (map encodeEntry es) @ suf"
  have d: "pre @ concat (map encodeEntry (e # es)) @ suf = pre @ encodeEntry e @ ?rest"
    by simp
  have 1: "loadEntry (pre @ encodeEntry e @ ?rest) (length pre)
           = Inr (fst e, snd e, length pre + length (encodeEntry e))"
    using Cons.prems by (simp add: loadEntry_encoded)
  have 2: "loadEntries ((pre @ encodeEntry e) @ ?rest) (length es) (length (pre @ encodeEntry e))
             (db(fst e \<mapsto> snd e)) = (None, store_all (db(fst e \<mapsto> snd e)) es)"
    using Cons.prems by (intro Cons.IH) simp
  show ?case
    unfolding d using 2 by (simp add: 1)
qed


lemma loadEntries_append:
  assumes "loadEntries data n offset db = (None, db')"
  shows "loadEntries (data @ extra) n offset db = (None, db')"
  using assms
proof (induction n arbitrary: offset db)
  case 0
  then show ?case by simp
next
  case (Suc n)
  from Suc.prems obtain key val offset' where r: "loadEntry data offset = Inr (key, val, offset')"
    by (auto split: sum.splits)
  with Suc.prems have "loadEntries data n offset' (db(key \<mapsto> val)) = (None, db')"
    by simp
  then have "loadEntries (data @ extra) n offset' (db(key \<mapsto> val)) = (None, db')"
    by (rule Suc.IH)
  then show ?case
    using loadEntry_append [OF r, of extra] by simp
qed

lemma loadEntries_no_panic: "fst (loadEntries data n offset db) \<noteq> Some Panic"
proof (induction n arbitrary: offset db)
  case 0
  then show ?case by simp
next
  case (Suc n)
  then show ?case
    using loadEntry_no_panic [of data offset] by (auto split: sum.splits)
qed

lemma store_all_range_over:
  "store_all m (range_over db ks) k = (if k \<in> set ks \<and> db k \<noteq> None then db k else m k)"
proof (induction ks arbitrary: m)
  case Nil
  then show ?case by (simp add: range_over_def List.map_filter_simps)
next
  case (Cons a ks)
  show ?case
  proof (cases "db a")
    case None
    then have "range_over db (a # ks) = range_over db ks"
      by (simp add: range_over_def List.map_filter_simps)
    then show ?thesis
      using Cons.IH [of m] None by auto
  next
    case (Some v)
    then have "range_over db (a # ks) = (a, v) # range_over db ks"
      by (simp add: range_over_def List.map_filter_simps)
    then have "store_all m (range_over db (a # ks)) k
               = store_all (m(a \<mapsto> v)) (range_over db ks) k"
      by simp
    also have "\<dots> = (if k \<in> set ks \<and> db k \<noteq> None then db k else (m(a \<mapsto> v)) k)"
      by (rule Cons.IH)
    finally show ?thesis
      using Some by auto
  qed
qed

lemma store_all_map_range:
  assumes "map_range db ks"
  shows "store_all Map.empty (range_over db ks) = db"
proof
  fix k
  show "store_all Map.empty (range_over db ks) k = db k"
    using assms by (auto simp: store_all_range_over map_range_def)
qed

lemma length_MagicHeader [simp]: "length MagicHeader = 4"
  by (simp add: MagicHeader_def)

lemma decodeDB_header:
  "decodeDB (MagicHeader @ PutUint32 Version @ PutUint32 cnt @ body) db0
   = loadEntries (MagicHeader @ PutUint32 Version @ PutUint32 cnt @ body) (unat cnt) 12 Map.empty"
proof -
  let ?data = "MagicHeader @ PutUint32 Version @ PutUint32 cnt @ body"
  have m: "subslice ?data 0 4 = Some MagicHeader"
    by (simp add: subslice_def)
  have v: "readUint32 ?data 4 = Some Version"
    using readUint32_middle [of MagicHeader Version] by (simp add: length_MagicHeader)
  have c: "readUint32 ?data 8 = Some cnt"
    using readUint32_middle [of "MagicHeader @ PutUint32 Version" cnt body]
    by (simp add: length_MagicHeader)
  have l: "length ?data = 12 + length body"
    by (simp add: length_MagicHeader)
  show ?thesis
    unfolding decodeDB_def Let_def m v c option.case l by simp
qed

lemma decodeDB_encodeDB_append:
  assumes "map_range db ks" and "encodable db ks"
  shows "decodeDB (encodeDB db ks @ extra) db0 = (None, db)"
proof -
  let ?es = "range_over db ks"
  let ?hdr = "MagicHeader @ PutUint32 Version @ PutUint32 (word_of_nat (length ?es))"
  have n: "unat (word_of_nat (length ?es) :: 32 word) = length ?es"
    and f: "list_all fits ?es"
    using assms(2) by (simp_all add: encodable_def unat_len32)
  have d: "encodeDB db ks @ extra = ?hdr @ concat (map encodeEntry ?es) @ extra"
    by (simp add: encodeDB_def)
  have "decodeDB (encodeDB db ks @ extra) db0
        = loadEntries (?hdr @ concat (map encodeEntry ?es) @ extra) (length ?es) (length ?hdr)
            Map.empty"
    using decodeDB_header [of "word_of_nat (length ?es)" "concat (map encodeEntry ?es) @ extra" db0]
    by (simp add: d n length_MagicHeader)
  also have "\<dots> = (None, store_all Map.empty ?es)"
    using f by (rule loadEntries_encoded)
  finally show ?thesis
    by (simp add: store_all_map_range [OF assms(1)])
qed


lemma decodeDB_append:
  assumes "decodeDB data db0 = (None, db)"
  shows "decodeDB (data @ extra) db0 = (None, db)"
proof -
  from assms have l: "12 \<le> length data"
    by (auto simp: decodeDB_def Let_def split: if_splits option.splits)
  then obtain version numEntries where v: "readUint32 data 4 = Some version"
    and c: "readUint32 data 8 = Some numEntries"
    using readUint32_defined [of 4 data] readUint32_defined [of 8 data] by auto
  have s: "subslice data 0 4 = Some (take 4 data)"
    using l by (simp add: subslice_def)
  from assms have ok: "take 4 data = MagicHeader" "version = Version"
    and le: "loadEntries data (unat numEntries) 12 Map.empty = (None, db)"
    using l by (auto simp: decodeDB_def Let_def s v c split: if_splits)
  have s': "subslice (data @ extra) 0 4 = Some (take 4 data)"
    using l s by (simp add: slice_append)
  have v': "readUint32 (data @ extra) 4 = Some version"
    and c': "readUint32 (data @ extra) 8 = Some numEntries"
    using l v c by (simp_all add: readUint32_append)
  have "loadEntries (data @ extra) (unat numEntries) 12 Map.empty = (None, db)"
    using le by (rule loadEntries_append)
  then show ?thesis
    using l ok by (simp add: decodeDB_def Let_def s' v' c')
qed

lemma decodeDB_magic:
  assumes "8 \<le> length data" and "take 4 data \<noteq> MagicHeader"
  shows "decodeDB data db = (Some InvalidFileFormat, db)"
  using assms by (simp add: decodeDB_def subslice_def)

lemma decodeDB_version:
  assumes "8 \<le> length data" and "take 4 data = MagicHeader"
  shows "\<exists>v. Uint32 (take 4 (drop 4 data)) = Some v
           \<and> (v \<noteq> Version \<longrightarrow> decodeDB data db = (Some (UnsupportedVersion v), db))"
proof -
  obtain v where v: "readUint32 data 4 = Some v"
    using readUint32_defined [of 4 data] assms(1) by auto
  then have "Uint32 (take 4 (drop 4 data)) = Some v"
    using assms(1) by (simp add: readUint32_def subslice_def)
  moreover have "v \<noteq> Version \<Longrightarrow> decodeDB data db = (Some (UnsupportedVersion v), db)"
    using assms by (simp add: decodeDB_def subslice_def v)
  ultimately show ?thesis
    by blast
qed

subsection \<open>The container: the claims\<close>

lemma range_over_demo: "range_over demoDB demoOrder = [(''QUJD'', ''REVG''), (''k'', ''00ff'')]"
  by (simp add: range_over_def List.map_filter_simps demoDB_def demoOrder_def noDB_def)

lemma map_range_demo: "map_range demoDB demoOrder"
  by (auto simp: map_range_def demoDB_def demoOrder_def noDB_def)

lemma encodable_demo: "encodable demoDB demoOrder"
  by (simp add: encodable_def range_over_demo fits_def)


text \<open>
  C6 (as amended). For every table that the format can hold (fewer than \<open>2\<^sup>3\<^sup>2\<close>
  entries, every key and value shorter than \<open>2\<^sup>3\<^sup>2\<close> bytes), the empty table
  included, and for every order in which the entries are written, decoding the
  encoded bytes succeeds and gives exactly the table that was encoded.
\<close>

theorem C6_decode_encode_roundtrip:
  assumes "map_range db ks" and "encodable db ks"
  shows "decodeDB (encodeDB db ks) db0 = (None, db)"
  using decodeDB_encodeDB_append [OF assms, of "[]" db0] by simp

theorem C6_decode_encode_roundtrip_witness:
  "decodeDB (encodeDB demoDB demoOrder) noDB = (None, demoDB)
   \<and> decodeDB (encodeDB noDB []) demoDB = (None, noDB)"
proof -
  have "map_range noDB []" and "encodable noDB []"
    by (simp_all add: map_range_def encodable_def noDB_def range_over_def List.map_filter_simps)
  then show ?thesis
    using C6_decode_encode_roundtrip [OF map_range_demo encodable_demo, of noDB]
      C6_decode_encode_roundtrip [of noDB "[]" demoDB] by simp
qed



text \<open>
  C10. Bytes after the declared entries are ignored: if an input decodes to a
  table, the same input followed by any further bytes decodes to the same table,
  without an error.
\<close>

theorem C10_trailing_bytes_ignored:
  assumes "decodeDB data db0 = (None, db)"
  shows "decodeDB (data @ extra) db0 = (None, db)"
  using assms by (rule decodeDB_append)

theorem C10_trailing_bytes_ignored_witness:
  "decodeDB (encodeDB demoDB demoOrder @ ''trailing bytes'') noDB = (None, demoDB)"
proof -
  have "decodeDB (encodeDB demoDB demoOrder) noDB = (None, demoDB)"
    using decodeDB_encodeDB_append [OF map_range_demo encodable_demo, of "[]" noDB] by simp
  then show ?thesis
    by (rule C10_trailing_bytes_ignored)
qed

text \<open>
  C8. Once the length check of the header has passed (at least 8 bytes): if the
  first four bytes are not \<open>SCFG\<close>, decoding fails with the invalid-format error; if
  they are, and the big-endian version at offset 4 is not 1, decoding fails with
  the unsupported-version error. Both leave the table as it was.
\<close>

theorem C8_header_checks:
  assumes "8 \<le> length data"
  shows "(take 4 data \<noteq> MagicHeader \<longrightarrow> decodeDB data db = (Some InvalidFileFormat, db))
       \<and> (take 4 data = MagicHeader \<longrightarrow>
            (\<exists>v. Uint32 (take 4 (drop 4 data)) = Some v
               \<and> (v \<noteq> Version \<longrightarrow> decodeDB data db = (Some (UnsupportedVersion v), db))))"
  using decodeDB_magic [OF assms] decodeDB_version [OF assms] by blast

theorem C8_header_checks_witness:
  "decodeDB ''JUNKJUNK'' demoDB = (Some InvalidFileFormat, demoDB)
   \<and> decodeDB (''SCFG'' @ PutUint32 2) demoDB = (Some (UnsupportedVersion 2), demoDB)"
proof -
  have 1: "8 \<le> length ''JUNKJUNK''" and 2: "take 4 ''JUNKJUNK'' \<noteq> MagicHeader"
    by (simp_all add: MagicHeader_def)
  have 3: "8 \<le> length (''SCFG'' @ PutUint32 2)"
    and 4: "take 4 (''SCFG'' @ PutUint32 2) = MagicHeader"
    and 5: "Uint32 (take 4 (drop 4 (''SCFG'' @ PutUint32 2))) = Some 2"
    using Uint32_PutUint32 [of 2 "[]"] by (simp_all add: MagicHeader_def)
  have 6: "(2 :: 32 word) \<noteq> Version"
    by (simp add: Version_def)
  show ?thesis
    using C8_header_checks [OF 1, of demoDB] C8_header_checks [OF 3, of demoDB] 2 4 5 6 by auto
qed

text \<open>
  The length check comes first: an input shorter than 8 bytes is rejected as too
  short, whatever its bytes are.
\<close>

lemma decodeDB_too_short:
  assumes "length data < 8"
  shows "decodeDB data db = (Some FileTooShort, db)"
  using assms by (simp add: decodeDB_def)

lemma length_bigKey: "length bigKey = 2 ^ 32"
  by (simp add: bigKey_def)

lemma word32_wraps: "(word_of_nat (2 ^ 32) :: 32 word) = 0"
  using of_nat_2p [where ?'a = 32] by simp

lemma bigKey_split:
  "bigKey = ''aaaa'' @ replicate 1633771873 (CHR ''a'') @ replicate 2661195419 (CHR ''a'')"
proof -
  have "''aaaa'' = replicate 4 (CHR ''a'')"
    by (simp add: numeral_eq_Suc)
  moreover have "(2::nat) ^ 32 = 4 + (1633771873 + 2661195419)"
    by simp
  ultimately show ?thesis
    unfolding bigKey_def by (simp only: replicate_add)
qed

lemma Uint32_aaaa: "Uint32 ''aaaa'' = Some 1633771873"
  by (simp add: Uint32_def)

lemma range_over_bigDB: "range_over bigDB [bigKey] = [(bigKey, [])]"
  by (simp add: range_over_def List.map_filter_simps bigDB_def)

lemma encodeDB_bigDB:
  "encodeDB bigDB [bigKey]
   = MagicHeader @ PutUint32 Version @ PutUint32 1 @ (PutUint32 0 @ bigKey @ PutUint32 0)"
  by (simp only: encodeDB_def range_over_bigDB encodeEntry_def length_bigKey word32_wraps
        list.map concat.simps fst_conv snd_conv list.size append_Nil2)
     simp

lemma loadEntry_bigDB:
  "loadEntry (encodeDB bigDB [bigKey]) 12 = Inr ([], replicate 1633771873 (CHR ''a''), 1633771893)"
proof -
  let ?hdr = "MagicHeader @ PutUint32 Version @ PutUint32 1"
  let ?r1 = "replicate 1633771873 (CHR ''a'')" and ?r2 = "replicate 2661195419 (CHR ''a'')"
  let ?data = "encodeDB bigDB [bigKey]"
  have h: "length ?hdr = 12"
    by simp
  have d1: "?data = ?hdr @ PutUint32 0 @ (bigKey @ PutUint32 0)"
    by (simp add: encodeDB_bigDB)
  have d2: "?data = (?hdr @ PutUint32 0) @ ''aaaa'' @ (?r1 @ ?r2 @ PutUint32 0)"
    unfolding encodeDB_bigDB by (simp only: bigKey_split append_assoc)
  have d3: "?data = (?hdr @ PutUint32 0 @ ''aaaa'') @ ?r1 @ (?r2 @ PutUint32 0)"
    unfolding encodeDB_bigDB by (simp only: bigKey_split append_assoc)
  have len: "length ?data = 4294967316"
    by (simp add: encodeDB_bigDB length_bigKey)
  have r1: "readUint32 ?data 12 = Some 0"
    using readUint32_middle [of ?hdr 0 "bigKey @ PutUint32 0"] by (simp only: d1 h)
  have r2: "subslice ?data 16 16 = Some []"
    by (simp add: subslice_def len)
  have "subslice ?data 16 20 = Some ''aaaa''"
    using slice_middle [of "?hdr @ PutUint32 0" "''aaaa''" "?r1 @ ?r2 @ PutUint32 0"]
    unfolding d2 [symmetric] by simp
  then have r3: "readUint32 ?data 16 = Some 1633771873"
    by (simp add: readUint32_def Uint32_aaaa)
  have r4: "subslice ?data 20 1633771893 = Some ?r1"
    using slice_middle [of "?hdr @ PutUint32 0 @ ''aaaa''" ?r1 "?r2 @ PutUint32 0"]
    unfolding d3 [symmetric] by simp
  show ?thesis
    unfolding loadEntry_def Let_def by (simp add: r1 r2 r3 r4 len)
qed

text \<open>
  A table with one entry whose key is \<open>2\<^sup>3\<^sup>2\<close> bytes long: its length is written as
  0, and the bytes decode without error to a different table (an empty key, and a
  value made of key bytes).
\<close>

theorem C6_oversized_key_counterexample:
  "map_range bigDB [bigKey]
   \<and> decodeDB (encodeDB bigDB [bigKey]) noDB = (None, bigDB_reloaded)
   \<and> bigDB_reloaded \<noteq> bigDB"
proof -
  have 1: "map_range bigDB [bigKey]"
    by (simp add: map_range_def bigDB_def noDB_def)
  have "decodeDB (encodeDB bigDB [bigKey]) noDB = loadEntries (encodeDB bigDB [bigKey]) 1 12 Map.empty"
    unfolding encodeDB_bigDB decodeDB_header by simp
  also have "\<dots> = (None, bigDB_reloaded)"
    by (simp add: loadEntry_bigDB bigDB_reloaded_def noDB_def)
  finally have 2: "decodeDB (encodeDB bigDB [bigKey]) noDB = (None, bigDB_reloaded)" .
  have "bigDB_reloaded [] \<noteq> bigDB []"
    by (simp add: bigDB_reloaded_def bigDB_def noDB_def bigKey_def)
  then have 3: "bigDB_reloaded \<noteq> bigDB"
    by metis
  from 1 2 3 show ?thesis
    by simp
qed

subsection \<open>Base64: decoding what was encoded\<close>

lemma length_encodeStd: "length encodeStd = 64"
  by (simp add: encodeStd_def)

lemma distinct_encodeStd: "distinct encodeStd"
  by (simp add: encodeStd_def)

lemma dec64_enc64: "dec64 (enc64 n) = Some (n mod 64)"
proof -
  have "map_of (zip encodeStd [0..<64]) (encodeStd ! (n mod 64)) = Some ([0..<64] ! (n mod 64))"
    by (rule map_of_zip_nth) (simp_all add: length_encodeStd distinct_encodeStd)
  then show ?thesis
    by (simp add: dec64_def enc64_def)
qed

lemma enc64_in: "enc64 n \<in> set encodeStd"
  by (simp add: enc64_def length_encodeStd)

lemma enc64_not_pad: "enc64 n \<noteq> CHR ''=''"
  using enc64_in [of n] by (auto simp: encodeStd_def)

lemma enc64_not_newline: "enc64 n \<noteq> CHR 0x0A" "enc64 n \<noteq> CHR 0x0D"
  using enc64_in [of n] by (auto simp: encodeStd_def)

lemma of_char_less_256: "(of_char c :: nat) < 256"
proof -
  have "(of_char c :: nat) = of_char c mod 256"
    by (rule of_char_mod_256 [symmetric])
  also have "\<dots> < 256"
    by simp
  finally show ?thesis .
qed

lemma sextets:
  fixes a b c :: nat
  assumes "a < 256" and "b < 256" and "c < 256"
  shows "a div 4 < 64"
    and "a mod 4 * 16 + b div 16 < 64"
    and "b mod 16 * 4 + c div 64 < 64"
    and "a mod 4 * 16 < 64"
    and "b mod 16 * 4 < 64"
proof -
  have a: "a div 4 < 64" and b: "b div 16 < 16" and c: "c div 64 < 4"
    using assms by (simp_all add: less_mult_imp_div_less)
  have a4: "a mod 4 < 4" and b16: "b mod 16 < 16"
    by simp_all
  show "a div 4 < 64"
    by (rule a)
  show "a mod 4 * 16 + b div 16 < 64"
    using a4 b by linarith
  show "b mod 16 * 4 + c div 64 < 64"
    using b16 c by linarith
  show "a mod 4 * 16 < 64"
    using a4 by linarith
  show "b mod 16 * 4 < 64"
    using b16 by linarith
qed

lemma octets:
  fixes a b c :: nat
  assumes "a < 256" and "b < 256" and "c < 256"
  shows "a div 4 * 4 + (a mod 4 * 16 + b div 16) div 16 = a"
    and "(a mod 4 * 16 + b div 16) mod 16 * 16 + (b mod 16 * 4 + c div 64) div 4 = b"
    and "(b mod 16 * 4 + c div 64) mod 4 * 64 + c mod 64 = c"
    and "a div 4 * 4 + a mod 4 * 16 div 16 = a"
    and "(a mod 4 * 16 + b div 16) mod 16 * 16 + b mod 16 * 4 div 4 = b"
proof -
  have b: "b div 16 < 16" and c: "c div 64 < 4"
    using assms by (simp_all add: less_mult_imp_div_less)
  have 1: "(a mod 4 * 16 + b div 16) div 16 = a mod 4"
    using b by simp
  have 2: "(a mod 4 * 16 + b div 16) mod 16 = b div 16"
    using b by simp
  have 3: "(b mod 16 * 4 + c div 64) div 4 = b mod 16"
    using c by simp
  have 4: "(b mod 16 * 4 + c div 64) mod 4 = c div 64"
    using c by simp
  show "a div 4 * 4 + (a mod 4 * 16 + b div 16) div 16 = a"
    by (simp add: 1)
  show "(a mod 4 * 16 + b div 16) mod 16 * 16 + (b mod 16 * 4 + c div 64) div 4 = b"
    using b by (simp add: 2 3)
  show "(b mod 16 * 4 + c div 64) mod 4 * 64 + c mod 64 = c"
    using c by (simp add: 4)
  show "a div 4 * 4 + a mod 4 * 16 div 16 = a"
    by simp
  show "(a mod 4 * 16 + b div 16) mod 16 * 16 + b mod 16 * 4 div 4 = b"
    using b by (simp add: 2)
qed

lemma dec64_enc64_less: "n < 64 \<Longrightarrow> dec64 (enc64 n) = Some n"
  by (simp add: dec64_enc64)

lemma dec64_Some_in: "dec64 c = Some x \<Longrightarrow> c \<in> set encodeStd"
  unfolding dec64_def by (drule map_of_SomeD) (rule set_zip_leftD)

lemma pad_not_in_encodeStd: "CHR ''='' \<notin> set encodeStd"
  by (simp add: encodeStd_def)

lemma dec64_Some_not_pad: "dec64 c = Some x \<Longrightarrow> c \<noteq> CHR ''=''"
  using dec64_Some_in pad_not_in_encodeStd by blast

lemma decodeQuanta_pad2:
  assumes "dec64 p = Some x" and "dec64 q = Some y"
  shows "decodeQuanta [p, q, CHR ''='', CHR ''=''] = Some [char_of (x * 4 + y div 16)]"
  using assms by simp

lemma decodeQuanta_pad1:
  assumes "dec64 p = Some x" and "dec64 q = Some y" and "dec64 r = Some z"
  shows "decodeQuanta [p, q, r, CHR ''='']
         = Some [char_of (x * 4 + y div 16), char_of ((y mod 16) * 16 + z div 4)]"
  using assms dec64_Some_not_pad [OF assms(3)] by simp

lemma decodeQuanta_quantum:
  assumes "dec64 p = Some x" and "dec64 q = Some y" and "dec64 r = Some z" and "dec64 s = Some u"
    and "decodeQuanta rest = Some bs"
  shows "decodeQuanta (p # q # r # s # rest)
         = Some (char_of (x * 4 + y div 16) # char_of ((y mod 16) * 16 + z div 4)
                 # char_of ((z mod 4) * 64 + u) # bs)"
proof (cases rest)
  case Nil
  have "r \<noteq> CHR ''=''" and "s \<noteq> CHR ''=''"
    using assms(3,4) by (simp_all add: dec64_Some_not_pad)
  then show ?thesis
    using assms Nil by simp
next
  case (Cons v va)
  then show ?thesis
    using assms by simp
qed

lemma decodeQuanta_EncodeToString: "decodeQuanta (EncodeToString bs) = Some bs"
proof (induction bs rule: EncodeToString.induct)
  case 1
  then show ?case by simp
next
  case (2 a)
  let ?a = "of_char a :: nat"
  have l: "?a < 256"
    by (rule of_char_less_256)
  have o: "char_of (?a div 4 * 4 + ?a mod 4 * 16 div 16) = a"
    by (simp only: octets(4) [OF l l l] char_of_char)
  have d: "dec64 (enc64 (?a div 4)) = Some (?a div 4)"
    "dec64 (enc64 (?a mod 4 * 16)) = Some (?a mod 4 * 16)"
    using sextets(1,4) [OF l l l] by (simp_all add: dec64_enc64_less)
  show ?case
    using decodeQuanta_pad2 [OF d] by (simp only: EncodeToString.simps o)
next
  case (3 a b)
  let ?a = "of_char a :: nat" and ?b = "of_char b :: nat"
  have l: "?a < 256" "?b < 256"
    by (rule of_char_less_256)+
  have o: "char_of (?a div 4 * 4 + (?a mod 4 * 16 + ?b div 16) div 16) = a"
    "char_of ((?a mod 4 * 16 + ?b div 16) mod 16 * 16 + ?b mod 16 * 4 div 4) = b"
    by (simp_all only: octets(1,5) [OF l l(2)] char_of_char)
  have d: "dec64 (enc64 (?a div 4)) = Some (?a div 4)"
    "dec64 (enc64 (?a mod 4 * 16 + ?b div 16)) = Some (?a mod 4 * 16 + ?b div 16)"
    "dec64 (enc64 (?b mod 16 * 4)) = Some (?b mod 16 * 4)"
    using sextets(1,2,5) [OF l l(2)] by (simp_all add: dec64_enc64_less)
  show ?case
    using decodeQuanta_pad1 [OF d] by (simp only: EncodeToString.simps o)
next
  case (4 a b c rest)
  let ?a = "of_char a :: nat" and ?b = "of_char b :: nat" and ?c = "of_char c :: nat"
  have l: "?a < 256" "?b < 256" "?c < 256"
    by (rule of_char_less_256)+
  have o: "char_of (?a div 4 * 4 + (?a mod 4 * 16 + ?b div 16) div 16) = a"
    "char_of ((?a mod 4 * 16 + ?b div 16) mod 16 * 16 + (?b mod 16 * 4 + ?c div 64) div 4) = b"
    "char_of ((?b mod 16 * 4 + ?c div 64) mod 4 * 64 + ?c mod 64) = c"
    by (simp_all only: octets(1,2,3) [OF l] char_of_char)
  have d: "dec64 (enc64 (?a div 4)) = Some (?a div 4)"
    "dec64 (enc64 (?a mod 4 * 16 + ?b div 16)) = Some (?a mod 4 * 16 + ?b div 16)"
    "dec64 (enc64 (?b mod 16 * 4 + ?c div 64)) = Some (?b mod 16 * 4 + ?c div 64)"
    "dec64 (enc64 (?c mod 64)) = Some (?c mod 64)"
    using sextets(1,2,3) [OF l] by (simp_all add: dec64_enc64_less)
  show ?case
    using decodeQuanta_quantum [OF d "4.IH"]
    by (simp only: EncodeToString.simps append_Cons append_Nil o)
qed

lemma EncodeToString_no_newline:
  "c \<in> set (EncodeToString bs) \<Longrightarrow> c \<noteq> CHR 0x0A \<and> c \<noteq> CHR 0x0D"
  by (induction bs rule: EncodeToString.induct) (auto simp: enc64_not_newline)

lemma DecodeString_EncodeToString: "DecodeString (EncodeToString bs) = Some bs"
proof -
  have "filter (\<lambda>c. c \<noteq> CHR 0x0A \<and> c \<noteq> CHR 0x0D) (EncodeToString bs) = EncodeToString bs"
    using EncodeToString_no_newline [of _ bs] by (intro filter_True) blast
  then show ?thesis
    by (simp add: DecodeString_def decodeQuanta_EncodeToString)
qed

lemma length_EncodeToString: "length (EncodeToString bs) mod 4 = 0"
  by (induction bs rule: EncodeToString.induct) simp_all

lemma EncodeToString_not_k: "EncodeToString bs \<noteq> ''k''"
proof
  assume "EncodeToString bs = ''k''"
  then have "length (EncodeToString bs) = 1"
    by simp
  then show False
    using length_EncodeToString [of bs] by simp
qed

lemma EncodeToString_inj: "EncodeToString a = EncodeToString b \<Longrightarrow> a = b"
  by (metis DecodeString_EncodeToString option.inject)

subsection \<open>The store: scanning, storing again, deleting\<close>

lemma range_over_Nil [simp]: "range_over db [] = []"
  by (simp add: range_over_def List.map_filter_simps)

lemma range_over_Cons:
  "range_over db (k # ks) = (case db k of None \<Rightarrow> range_over db ks | Some v \<Rightarrow> (k, v) # range_over db ks)"
  by (simp add: range_over_def List.map_filter_simps split: option.splits)

lemma range_over_append: "range_over db (xs @ ys) = range_over db xs @ range_over db ys"
  by (induction xs) (simp_all add: range_over_Cons split: option.splits)

lemma range_over_keys: "(k, v) \<in> set (range_over db ks) \<Longrightarrow> k \<in> set ks \<and> db k = Some v"
  by (induction ks) (auto simp: range_over_Cons split: option.splits)

lemma range_over_mem: "k \<in> set ks \<Longrightarrow> db k = Some v \<Longrightarrow> (k, v) \<in> set (range_over db ks)"
  by (induction ks) (auto simp: range_over_Cons split: option.splits)

lemma Retrieve_range_passed_over:
  assumes "passed_over c key k" and "DB c k = Some v"
  shows "Retrieve_range c ((k, v) # es) key = Retrieve_range c es key"
proof (cases "k = ''k''")
  case True
  then show ?thesis by simp
next
  case nk: False
  show ?thesis
  proof (cases "DecodeString k")
    case None
    then show ?thesis using nk by simp
  next
    case kb: (Some keyBytes)
    show ?thesis
    proof (cases "Decrypt c keyBytes")
      case (Inl err)
      then have "key_unopened c k"
        using assms(1) nk kb by (simp add: passed_over_def key_opens_other_def matched_not_base64_def)
      then have "err \<noteq> Panic"
        using kb Inl by (simp add: key_unopened_def)
      then show ?thesis using nk kb Inl by simp
    next
      case dk: (Inr decKey)
      show ?thesis
      proof (cases "decKey = key")
        case False
        then show ?thesis using nk kb dk by simp
      next
        case True
        then have "matched_not_base64 c key k"
          using assms(1) nk kb dk by (simp add: passed_over_def key_unopened_def key_opens_other_def)
        then have "DecodeString v = None"
          using kb assms(2) by (simp add: matched_not_base64_def)
        then show ?thesis using nk kb dk True by simp
      qed
    qed
  qed
qed

lemma Retrieve_range_skip:
  assumes "\<forall>k \<in> set pre. passed_over c key k"
  shows "Retrieve_range c (range_over (DB c) pre @ es) key = Retrieve_range c es key"
  using assms
proof (induction pre)
  case Nil
  then show ?case by simp
next
  case (Cons k pre)
  then have ih: "Retrieve_range c (range_over (DB c) pre @ es) key = Retrieve_range c es key"
    by simp
  show ?case
  proof (cases "DB c k")
    case None
    then show ?thesis
      using ih by (simp add: range_over_Cons)
  next
    case (Some v)
    have "passed_over c key k"
      using Cons.prems by simp
    then have "Retrieve_range c ((k, v) # range_over (DB c) pre @ es) key
               = Retrieve_range c (range_over (DB c) pre @ es) key"
      using Some by (rule Retrieve_range_passed_over)
    then show ?thesis
      using ih Some by (simp add: range_over_Cons)
  qed
qed

lemma Decrypt_errors:
  assumes "Decrypt c d = Inl err" and "GCM c \<noteq> None"
  shows "err = CiphertextTooShort \<or> err = FailedToDecrypt"
  using assms by (auto simp: Decrypt_def Let_def split: option.splits if_splits)

lemma Decrypt_Inr_GCM: "Decrypt c d = Inr p \<Longrightarrow> GCM c \<noteq> None"
  by (cases "GCM c") (simp_all add: Decrypt_def)

text \<open>
  C2 (as amended). The scan of \<open>Retrieve\<close> goes past every entry whose sealed key
  fails to open (not base64, or \<open>Decrypt\<close> fails on it), every entry whose key opens
  to another key, the reserved entry, and every entry whose key decrypts to the
  requested key but whose stored value is not base64; none of them ends the scan.
  The first entry whose key decrypts to the requested key and whose value is
  base64 ends it with the result of \<open>Decrypt\<close> on that value: when that decryption
  fails, \<open>Retrieve\<close> returns its error, which is ciphertext-too-short or
  failed-to-decrypt. When every entry is gone past, \<open>Retrieve\<close> fails with
  key-not-found.
\<close>

theorem C2_scan_skips_and_propagates:
  assumes "\<forall>k \<in> set pre. passed_over c key k"
  shows "Retrieve c (pre @ rest) key = Retrieve c rest key
       \<and> Retrieve c pre key = Inl (KeyNotFound key)
       \<and> (k0 \<noteq> ''k'' \<and> DB c k0 = Some v0
            \<and> DecodeString k0 = Some keyBytes \<and> Decrypt c keyBytes = Inr key
            \<and> DecodeString v0 = Some valueBytes
          \<longrightarrow> Retrieve c (pre @ k0 # rest) key = Decrypt c valueBytes
              \<and> (Decrypt c valueBytes = Inl err
                   \<longrightarrow> Retrieve c (pre @ k0 # rest) key = Inl err
                       \<and> (err = CiphertextTooShort \<or> err = FailedToDecrypt)))"
proof (intro conjI impI)
  show skip: "Retrieve c (pre @ rest) key = Retrieve c rest key" for rest
    using Retrieve_range_skip [OF assms] by (simp add: Retrieve_def range_over_append)
  show "Retrieve c pre key = Inl (KeyNotFound key)"
    using skip [of "[]"] by (simp add: Retrieve_def)
next
  assume m: "k0 \<noteq> ''k'' \<and> DB c k0 = Some v0
            \<and> DecodeString k0 = Some keyBytes \<and> Decrypt c keyBytes = Inr key
            \<and> DecodeString v0 = Some valueBytes"
  have "Retrieve c (pre @ k0 # rest) key
        = Retrieve_range c ((k0, v0) # range_over (DB c) rest) key"
    using Retrieve_range_skip [OF assms] m
    by (simp add: Retrieve_def range_over_append range_over_Cons)
  also have "\<dots> = Decrypt c valueBytes"
    using m by simp
  finally show r: "Retrieve c (pre @ k0 # rest) key = Decrypt c valueBytes" .
  assume e: "Decrypt c valueBytes = Inl err"
  show "Retrieve c (pre @ k0 # rest) key = Inl err"
    using r e by simp
  show "err = CiphertextTooShort \<or> err = FailedToDecrypt"
    using e m Decrypt_Inr_GCM [of c keyBytes key] by (intro Decrypt_errors) simp_all
qed

lemma Decrypt_GCM: "GCM c' = GCM c \<Longrightarrow> Decrypt c' d = Decrypt c d"
  by (simp add: Decrypt_def)

lemma Decrypt_no_panic: "GCM c = Some g \<Longrightarrow> Decrypt c d \<noteq> Inl Panic"
  by (simp add: Decrypt_def Let_def split: option.splits)

lemma Decrypt_not_KeyNotFound: "Decrypt c d \<noteq> Inl (KeyNotFound k)"
  by (simp add: Decrypt_def Let_def split: option.splits)

lemma Retrieve_range_GCM:
  assumes "GCM c' = GCM c"
  shows "Retrieve_range c' es key = Retrieve_range c es key"
proof (induction es)
  case Nil
  then show ?case by simp
next
  case (Cons e es)
  obtain k v where e: "e = (k, v)"
    by (cases e)
  show ?case
    unfolding e Retrieve_range.simps Decrypt_GCM [OF assms] Cons.IH ..
qed

lemma Seal_prefix:
  assumes "aead_ok g" and "length nonce = NonceSize g"
  shows "Seal g nonce nonce p [] = nonce @ Seal g [] nonce p []"
  using assms by (simp add: aead_ok_def seal_appends_def)

lemma Encrypt_None:
  assumes "GCM c = Some g" and "\<not> NonceSize g \<le> length (rand w)"
  shows "Encrypt c w p = (Inl FailedToGenerateNonce, w\<lparr>rand := []\<rparr>)"
  using assms by (simp add: Encrypt_def ReadFull_def)

text \<open>What a successful \<open>Store\<close> did.\<close>

lemma Store_success:
  assumes "GCM c = Some g" and "Store c ks w key val = (None, c', w')"
  shows "\<exists>n1 n2. n1 = take (NonceSize g) (rand w)
           \<and> length n1 = NonceSize g \<and> length n2 = NonceSize g
           \<and> c' = c\<lparr>DB := (DB c)(EncodeToString (Seal g n1 n1 key [])
                                    \<mapsto> EncodeToString (Seal g n2 n2 val []))\<rparr>"
proof -
  let ?N = "NonceSize g"
  let ?w1 = "w\<lparr>rand := drop ?N (rand w)\<rparr>"
  let ?n1 = "take ?N (rand w)"
  let ?n2 = "take ?N (rand ?w1)"
  let ?w2 = "?w1\<lparr>rand := drop ?N (rand ?w1)\<rparr>"
  have l1: "?N \<le> length (rand w)"
  proof (rule ccontr)
    assume "\<not> ?N \<le> length (rand w)"
    then have "fst (Store c ks w key val) \<noteq> None"
      by (simp add: Store_def Encrypt_None [OF assms(1)])
    then show False
      using assms(2) by simp
  qed
  have e1: "Encrypt c w key = (Inr (Seal g ?n1 ?n1 key []), ?w1)"
    using Encrypt_Some [OF assms(1) l1] .
  have l2: "?N \<le> length (rand ?w1)"
  proof (rule ccontr)
    assume "\<not> ?N \<le> length (rand ?w1)"
    then have "fst (Store c ks w key val) \<noteq> None"
      by (simp add: Store_def e1 Encrypt_None [OF assms(1)])
    then show False
      using assms(2) by simp
  qed
  have e2: "Encrypt c ?w1 val = (Inr (Seal g ?n2 ?n2 val []), ?w2)"
    using Encrypt_Some [OF assms(1) l2] .
  let ?c' = "c\<lparr>DB := (DB c)(EncodeToString (Seal g ?n1 ?n1 key [])
                              \<mapsto> EncodeToString (Seal g ?n2 ?n2 val []))\<rparr>"
  have "Store c ks w key val
        = (fst (writeSecretsFile ?c' ks ?w2), ?c', snd (writeSecretsFile ?c' ks ?w2))"
    by (simp add: Store_def e1 e2 Let_def split_beta)
  then have "c' = ?c'"
    using assms(2) by simp
  moreover have "length ?n1 = ?N" "length ?n2 = ?N"
    using l1 l2 by simp_all
  ultimately show ?thesis
    by blast
qed

lemma map_range_exists_first:
  assumes "finite (dom db)" and "db k = Some v"
  shows "\<exists>ks. map_range db (k # ks)"
proof -
  obtain ks where ks: "set ks = dom db - {k}" "distinct ks"
    using finite_distinct_list [of "dom db - {k}"] assms(1) by auto
  then have "map_range db (k # ks)"
    using assms(2) by (auto simp: map_range_def)
  then show ?thesis ..
qed

lemma Store_again_old_entry_first:
  assumes "GCM c = Some g" and "aead_ok g" and "finite (dom (DB c))"
    and "DB c ek0 = Some ev0" and "ek0 \<noteq> ''k''"
    and "DecodeString ek0 = Some kb0" and "Decrypt c kb0 = Inr k"
    and "DecodeString ev0 = Some vb0" and "Decrypt c vb0 = Inr v0"
    and "take (NonceSize g) (rand w) \<noteq> take (NonceSize g) kb0"
    and "Store c ks w k v = (None, c', w')"
  shows "\<exists>ks'. map_range (DB c') ks' \<and> Retrieve c' ks' k = Inr v0"
proof -
  obtain n1 n2 where n1: "n1 = take (NonceSize g) (rand w)" "length n1 = NonceSize g"
    and c': "c' = c\<lparr>DB := (DB c)(EncodeToString (Seal g n1 n1 k [])
                                  \<mapsto> EncodeToString (Seal g n2 n2 v []))\<rparr>"
    using Store_success [OF assms(1,11)] by blast
  let ?ek1 = "EncodeToString (Seal g n1 n1 k [])"
  have "?ek1 \<noteq> ek0"
  proof
    assume "?ek1 = ek0"
    then have "DecodeString ek0 = Some (Seal g n1 n1 k [])"
      using DecodeString_EncodeToString [of "Seal g n1 n1 k []"] by simp
    then have "kb0 = Seal g n1 n1 k []"
      using assms(6) by simp
    then have "take (NonceSize g) kb0 = n1"
      using Seal_prefix [OF assms(2) n1(2)] n1(2) by simp
    then show False
      using assms(10) n1(1) by simp
  qed
  then have old: "DB c' ek0 = Some ev0"
    using assms(4) by (simp add: c')
  have gcm: "GCM c' = GCM c"
    by (simp add: c')
  have "finite (dom (DB c'))"
    using assms(3) by (simp add: c')
  then obtain ks' where ks': "map_range (DB c') (ek0 # ks')"
    using map_range_exists_first old by blast
  have "range_over (DB c') (ek0 # ks') = (ek0, ev0) # range_over (DB c') ks'"
    using old by (simp add: range_over_Cons)
  then have "Retrieve c' (ek0 # ks') k = Retrieve_range c ((ek0, ev0) # range_over (DB c') ks') k"
    by (simp only: Retrieve_def Retrieve_range_GCM [OF gcm])
  also have "\<dots> = Inr v0"
    using assms(5-9) by simp
  finally show ?thesis
    using ks' by blast
qed

lemma entry_opensD:
  assumes "entry_opens c ek = Some (k, v)"
  shows "ek \<noteq> ''k''"
    and "\<exists>ev kb vb. DB c ek = Some ev \<and> DecodeString ek = Some kb \<and> Decrypt c kb = Inr k
           \<and> DecodeString ev = Some vb \<and> Decrypt c vb = Inr v"
proof -
  show "ek \<noteq> ''k''"
    using assms by (auto simp: entry_opens_def)
  then obtain ev where 1: "DB c ek = Some ev"
    using assms by (cases "DB c ek") (simp_all add: entry_opens_def)
  obtain kb where 2: "DecodeString ek = Some kb"
    using assms \<open>ek \<noteq> ''k''\<close> 1 by (cases "DecodeString ek") (simp_all add: entry_opens_def)
  obtain dk where 3: "Decrypt c kb = Inr dk"
    using assms \<open>ek \<noteq> ''k''\<close> 1 2 by (cases "Decrypt c kb") (simp_all add: entry_opens_def)
  obtain vb where 4: "DecodeString ev = Some vb"
    using assms \<open>ek \<noteq> ''k''\<close> 1 2 3 by (cases "DecodeString ev") (simp_all add: entry_opens_def)
  obtain dv where 5: "Decrypt c vb = Inr dv"
    using assms \<open>ek \<noteq> ''k''\<close> 1 2 3 4 by (cases "Decrypt c vb") (simp_all add: entry_opens_def)
  have "dk = k" "dv = v"
    using assms \<open>ek \<noteq> ''k''\<close> 1 2 3 4 5 by (simp_all add: entry_opens_def)
  then show "\<exists>ev kb vb. DB c ek = Some ev \<and> DecodeString ek = Some kb \<and> Decrypt c kb = Inr k
           \<and> DecodeString ev = Some vb \<and> Decrypt c vb = Inr v"
    using 1 2 3 4 5 by blast
qed

lemma entry_opensI:
  assumes "ek \<noteq> ''k''" and "DB c ek = Some ev" and "DecodeString ek = Some kb"
    and "Decrypt c kb = Inr k" and "DecodeString ev = Some vb" and "Decrypt c vb = Inr v"
  shows "entry_opens c ek = Some (k, v)"
  using assms by (simp add: entry_opens_def)

lemma entry_opens_GCM:
  assumes "GCM c' = GCM c" and "DB c' ek = DB c ek"
  shows "entry_opens c' ek = entry_opens c ek"
  unfolding entry_opens_def assms(2) Decrypt_GCM [OF assms(1)] ..

lemma Retrieve_range_hit:
  assumes "ek \<noteq> ''k''" and "DecodeString ek = Some kb" and "Decrypt c kb = Inr k"
    and "DecodeString ev = Some vb" and "Decrypt c vb = Inr v"
  shows "Retrieve_range c ((ek, ev) # es) k = Inr v"
  using assms by simp

lemma Retrieve_range_step:
  "Retrieve_range c ((k1, v1) # es) key = Retrieve_range c es key
   \<or> Retrieve_range c ((k1, v1) # es) key = Inl Panic
   \<or> (\<exists>d. Retrieve_range c ((k1, v1) # es) key = Decrypt c d)"
proof (cases "k1 = ''k''")
  case True
  then show ?thesis by simp
next
  case nk: False
  show ?thesis
  proof (cases "DecodeString k1")
    case None
    then show ?thesis using nk by simp
  next
    case kb: (Some kb)
    show ?thesis
    proof (cases "Decrypt c kb")
      case (Inl err)
      then show ?thesis using nk kb by simp
    next
      case dk: (Inr dk)
      show ?thesis
      proof (cases "dk = key")
        case False
        then show ?thesis using nk kb dk by simp
      next
        case True
        show ?thesis
        proof (cases "DecodeString v1")
          case None
          then show ?thesis using nk kb dk True by simp
        next
          case (Some vb)
          then have "Retrieve_range c ((k1, v1) # es) key = Decrypt c vb"
            using nk kb dk True by simp
          then show ?thesis by blast
        qed
      qed
    qed
  qed
qed

lemma Retrieve_range_found:
  assumes "GCM c = Some g" and "(ek, ev) \<in> set es"
    and "ek \<noteq> ''k''" and "DecodeString ek = Some kb" and "Decrypt c kb = Inr k"
    and "DecodeString ev = Some vb" and "Decrypt c vb = Inr v"
  shows "Retrieve_range c es k \<noteq> Inl (KeyNotFound k)"
  using assms(2)
proof (induction es)
  case Nil
  then show ?case by simp
next
  case (Cons e es)
  obtain k1 v1 where e: "e = (k1, v1)"
    by (cases e)
  show ?case
  proof (cases "e = (ek, ev)")
    case True
    then show ?thesis
      using Retrieve_range_hit [OF assms(3-7)] by simp
  next
    case False
    then have ih: "Retrieve_range c es k \<noteq> Inl (KeyNotFound k)"
      using Cons by simp
    consider (skip) "Retrieve_range c ((k1, v1) # es) k = Retrieve_range c es k"
      | (panic) "Retrieve_range c ((k1, v1) # es) k = Inl Panic"
      | (ret) d where "Retrieve_range c ((k1, v1) # es) k = Decrypt c d"
      using Retrieve_range_step [of c k1 v1 es k] by blast
    then have "Retrieve_range c ((k1, v1) # es) k \<noteq> Inl (KeyNotFound k)"
    proof cases
      case skip
      then show ?thesis
        using ih by metis
    next
      case panic
      moreover have "Inl Panic \<noteq> (Inl (KeyNotFound k) :: error + string)"
        by simp
      ultimately show ?thesis
        by metis
    next
      case ret
      then show ?thesis
        using Decrypt_not_KeyNotFound [of c d k] by metis
    qed
    then show ?thesis
      unfolding e .
  qed
qed

lemma ListKeys_range_step:
  assumes "GCM c = Some g"
  shows "ListKeys_range c ((k1, v1) # es) acc = ListKeys_range c es acc
         \<or> (\<exists>kb dk. k1 \<noteq> ''k'' \<and> DecodeString k1 = Some kb \<and> Decrypt c kb = Inr dk
               \<and> ListKeys_range c ((k1, v1) # es) acc = ListKeys_range c es (acc @ [dk]))"
proof (cases "k1 = ''k''")
  case True
  then show ?thesis by simp
next
  case nk: False
  show ?thesis
  proof (cases "DecodeString k1")
    case None
    then show ?thesis using nk by simp
  next
    case kb: (Some kb)
    show ?thesis
    proof (cases "Decrypt c kb")
      case (Inl err)
      then have "err \<noteq> Panic"
        using Decrypt_no_panic [OF assms, of kb] by auto
      then show ?thesis using nk kb Inl by simp
    next
      case (Inr dk)
      then show ?thesis using nk kb by simp
    qed
  qed
qed

lemma ListKeys_range_total:
  assumes "GCM c = Some g"
  shows "\<exists>keys. ListKeys_range c es acc = Inr keys \<and> set acc \<subseteq> set keys"
proof (induction es arbitrary: acc)
  case Nil
  then show ?case by simp
next
  case (Cons e es)
  obtain k1 v1 where e: "e = (k1, v1)"
    by (cases e)
  consider (skip) "ListKeys_range c ((k1, v1) # es) acc = ListKeys_range c es acc"
    | (add) dk where "ListKeys_range c ((k1, v1) # es) acc = ListKeys_range c es (acc @ [dk])"
    using ListKeys_range_step [OF assms, of k1 v1 es acc] by blast
  then show ?case
  proof cases
    case skip
    then show ?thesis
      unfolding e using Cons.IH [of acc] by metis
  next
    case add
    obtain keys where "ListKeys_range c es (acc @ [dk]) = Inr keys"
      and "set (acc @ [dk]) \<subseteq> set keys"
      using Cons.IH [of "acc @ [dk]"] by blast
    then show ?thesis
      unfolding e using add by auto
  qed
qed

lemma ListKeys_range_contains:
  assumes "GCM c = Some g" and "(ek, ev) \<in> set es"
    and "ek \<noteq> ''k''" and "DecodeString ek = Some kb" and "Decrypt c kb = Inr k"
  shows "\<exists>keys. ListKeys_range c es acc = Inr keys \<and> k \<in> set keys"
  using assms(2)
proof (induction es arbitrary: acc)
  case Nil
  then show ?case by simp
next
  case (Cons e es)
  obtain k1 v1 where e: "e = (k1, v1)"
    by (cases e)
  show ?case
  proof (cases "e = (ek, ev)")
    case True
    have "ListKeys_range c ((ek, ev) # es) acc = ListKeys_range c es (acc @ [k])"
      using assms(3-5) by simp
    moreover obtain keys where "ListKeys_range c es (acc @ [k]) = Inr keys"
      and "set (acc @ [k]) \<subseteq> set keys"
      using ListKeys_range_total [OF assms(1), of es "acc @ [k]"] by blast
    ultimately show ?thesis
      using True by auto
  next
    case False
    then have ih: "\<And>acc. \<exists>keys. ListKeys_range c es acc = Inr keys \<and> k \<in> set keys"
      using Cons by simp
    consider (skip) "ListKeys_range c ((k1, v1) # es) acc = ListKeys_range c es acc"
      | (add) dk where "ListKeys_range c ((k1, v1) # es) acc = ListKeys_range c es (acc @ [dk])"
      using ListKeys_range_step [OF assms(1), of k1 v1 es acc] by blast
    then show ?thesis
    proof cases
      case skip
      then show ?thesis
        unfolding e using ih [of acc] by metis
    next
      case add
      then show ?thesis
        unfolding e using ih [of "acc @ [dk]"] by metis
    qed
  qed
qed

lemma Delete_range_success:
  assumes "Delete_range c es ks' w key = (None, c', w')"
  shows "\<exists>kd. c' = c\<lparr>DB := (DB c)(kd := None)\<rparr>"
  using assms
proof (induction es)
  case Nil
  then show ?case by simp
next
  case (Cons e es)
  obtain k1 v1 where e: "e = (k1, v1)"
    by (cases e)
  let ?c1 = "c\<lparr>DB := (DB c)(k1 := None)\<rparr>"
  have "Delete_range c ((k1, v1) # es) ks' w key = Delete_range c es ks' w key
        \<or> Delete_range c ((k1, v1) # es) ks' w key = (Some Panic, c, w)
        \<or> Delete_range c ((k1, v1) # es) ks' w key
            = (fst (writeSecretsFile ?c1 ks' w), ?c1, snd (writeSecretsFile ?c1 ks' w))"
    by (simp add: Let_def split_beta split: option.splits sum.splits)
  then consider (skip) "Delete_range c ((k1, v1) # es) ks' w key = Delete_range c es ks' w key"
    | (panic) "Delete_range c ((k1, v1) # es) ks' w key = (Some Panic, c, w)"
    | (del) "Delete_range c ((k1, v1) # es) ks' w key
            = (fst (writeSecretsFile ?c1 ks' w), ?c1, snd (writeSecretsFile ?c1 ks' w))"
    by blast
  then show ?case
  proof cases
    case skip
    then have "Delete_range c es ks' w key = (None, c', w')"
      using Cons.prems unfolding e by metis
    then show ?thesis
      by (rule Cons.IH)
  next
    case panic
    then have "(Some Panic, c, w) = (None, c', w')"
      using Cons.prems unfolding e by metis
    then show ?thesis
      by simp
  next
    case del
    then have "(fst (writeSecretsFile ?c1 ks' w), ?c1, snd (writeSecretsFile ?c1 ks' w))
               = (None, c', w')"
      using Cons.prems unfolding e by metis
    then have "c' = ?c1"
      by simp
    then show ?thesis
      by blast
  qed
qed

lemma writeSecretsFile_ok:
  assumes "mkdir_ok w" and "write_ok w"
  shows "writeSecretsFile c ks w = (None, w\<lparr>files := (files w)(ConfigFile c \<mapsto> encodeDB (DB c) ks)\<rparr>)"
  using assms by (simp add: writeSecretsFile_def findDataFile_def)

lemma Store_ok:
  assumes "GCM c = Some g" and "2 * NonceSize g \<le> length (rand w)"
    and "mkdir_ok w" and "write_ok w"
  shows "Store c ks w key val =
     (let n1 = take (NonceSize g) (rand w);
          n2 = take (NonceSize g) (drop (NonceSize g) (rand w));
          c' = c\<lparr>DB := (DB c)(EncodeToString (Seal g n1 n1 key [])
                                \<mapsto> EncodeToString (Seal g n2 n2 val []))\<rparr>
      in (None, c',
          w\<lparr>rand := drop (2 * NonceSize g) (rand w),
            files := (files w)(ConfigFile c \<mapsto> encodeDB (DB c') ks)\<rparr>))"
proof -
  let ?N = "NonceSize g"
  let ?w1 = "w\<lparr>rand := drop ?N (rand w)\<rparr>"
  let ?w2 = "?w1\<lparr>rand := drop ?N (rand ?w1)\<rparr>"
  have l1: "?N \<le> length (rand w)" and l2: "?N \<le> length (rand ?w1)"
    using assms(2) by simp_all
  have e1: "Encrypt c w key = (Inr (Seal g (take ?N (rand w)) (take ?N (rand w)) key []), ?w1)"
    using Encrypt_Some [OF assms(1) l1] .
  have e2: "Encrypt c ?w1 val
            = (Inr (Seal g (take ?N (rand ?w1)) (take ?N (rand ?w1)) val []), ?w2)"
    using Encrypt_Some [OF assms(1) l2] .
  show ?thesis
    by (simp add: Store_def e1 e2 Let_def writeSecretsFile_ok assms(3,4) mult_2)
qed

text \<open>
  C9, where the code departs from it. When two entries of the table decrypt to the
  same plaintext key (the state after storing that key twice), a successful
  \<open>Delete\<close> removes one of them only: afterwards, in every order of the range,
  \<open>Retrieve\<close> does not fail with key-not-found and \<open>ListKeys\<close> still lists the key.
\<close>

theorem C9_delete_leaves_other_entry:
  assumes "GCM c = Some g"
    and "entry_opens c ek1 = Some (k, v1)" and "entry_opens c ek2 = Some (k, v2)"
    and "ek1 \<noteq> ek2"
    and "Delete c ks ks' w k = (None, c', w')"
    and "map_range (DB c') ks3"
  shows "Retrieve c' ks3 k \<noteq> Inl (KeyNotFound k)
         \<and> (\<exists>keys. ListKeys c' ks3 = Inr keys \<and> k \<in> set keys)"
proof -
  obtain kd where c': "c' = c\<lparr>DB := (DB c)(kd := None)\<rparr>"
    using assms(5) Delete_range_success unfolding Delete_def by blast
  have gcm: "GCM c' = GCM c"
    by (simp add: c')
  obtain ek v where ek: "ek \<noteq> kd" and o: "entry_opens c ek = Some (k, v)"
    using assms(2-4) by metis
  have "DB c' ek = DB c ek"
    using ek by (simp add: c')
  then have "entry_opens c' ek = Some (k, v)"
    using o entry_opens_GCM [OF gcm] by simp
  then obtain ev kb vb where nk: "ek \<noteq> ''k''" and db: "DB c' ek = Some ev"
    and kb: "DecodeString ek = Some kb" "Decrypt c' kb = Inr k"
    and vb: "DecodeString ev = Some vb" "Decrypt c' vb = Inr v"
    using entry_opensD [of c' ek k v] by blast
  have "ek \<in> set ks3"
    using assms(6) db by (auto simp: map_range_def)
  then have mem: "(ek, ev) \<in> set (range_over (DB c') ks3)"
    using db by (rule range_over_mem)
  have g': "GCM c' = Some g"
    using gcm assms(1) by simp
  have "Retrieve c' ks3 k \<noteq> Inl (KeyNotFound k)"
    unfolding Retrieve_def using g' mem nk kb vb by (rule Retrieve_range_found)
  moreover have "\<exists>keys. ListKeys c' ks3 = Inr keys \<and> k \<in> set keys"
    unfolding ListKeys_def using g' mem nk kb by (rule ListKeys_range_contains)
  ultimately show ?thesis
    by blast
qed

text \<open>
  C1, where the code departs from it. \<open>Store\<close> seals the key under a fresh nonce, so
  storing a key that is already in the table adds a second entry instead of
  replacing the first: when an entry opens to key \<open>k\<close> and value \<open>v0\<close> and the nonce
  drawn differs from that entry's nonce, then after a successful \<open>Store\<close> of \<open>k\<close>
  with any value there is a possible order of the range in which \<open>Retrieve\<close> of \<open>k\<close>
  returns the old value \<open>v0\<close>.
\<close>

theorem C1_store_again_keeps_old_entry:
  assumes "GCM c = Some g" and "aead_ok g" and "finite (dom (DB c))"
    and "entry_opens c ek0 = Some (k, v0)"
    and "map_option (take (NonceSize g)) (DecodeString ek0) \<noteq> Some (take (NonceSize g) (rand w))"
    and "Store c ks w k v = (None, c', w')"
  shows "\<exists>ks'. map_range (DB c') ks' \<and> Retrieve c' ks' k = Inr v0"
proof -
  obtain ev0 kb0 vb0 where nk: "ek0 \<noteq> ''k''" and db: "DB c ek0 = Some ev0"
    and kb: "DecodeString ek0 = Some kb0" "Decrypt c kb0 = Inr k"
    and vb: "DecodeString ev0 = Some vb0" "Decrypt c vb0 = Inr v0"
    using entry_opensD [OF assms(4)] by blast
  have fresh: "take (NonceSize g) (rand w) \<noteq> take (NonceSize g) kb0"
    using assms(5) kb(1) by auto
  show ?thesis
    using Store_again_old_entry_first [OF assms(1-3) db nk kb vb fresh assms(6)] .
qed

lemma GCM_demoConfig: "GCM demoConfig = Some demoAEAD"
  by (simp add: demoConfig_def)

lemma NonceSize_demoAEAD: "NonceSize demoAEAD = 12"
  by (simp add: demoAEAD_def)

lemma Decrypt_demo:
  assumes "GCM c = Some demoAEAD" and "length n = 12"
  shows "Decrypt c (Seal demoAEAD n n p []) = Inr p"
  using Decrypt_sealed [OF assms(1) demoAEAD_ok] assms(2) by (simp add: NonceSize_demoAEAD)

lemma sealed_distinct:
  "sealedKey1 \<noteq> sealedKey2" "sealedKey1 \<noteq> ''k''" "sealedKey2 \<noteq> ''k''"
proof -
  have "Seal demoAEAD ''nonce-no-001'' ''nonce-no-001'' ''api.key'' []
        \<noteq> Seal demoAEAD ''nonce-no-003'' ''nonce-no-003'' ''api.key'' []"
    by (simp add: demoAEAD_def)
  then show "sealedKey1 \<noteq> sealedKey2"
    unfolding sealedKey1_def sealedKey2_def using EncodeToString_inj by blast
  show "sealedKey1 \<noteq> ''k''" "sealedKey2 \<noteq> ''k''"
    by (simp_all add: sealedKey1_def sealedKey2_def EncodeToString_not_k)
qed

lemma stored1_eq:
  "stored1 = (None, demoConfig\<lparr>DB := (DB demoConfig)(sealedKey1 \<mapsto> sealedOld)\<rparr>,
     demoWorld\<lparr>rand := ''nonce-no-003nonce-no-004'',
       files := (files demoWorld)(''config'' \<mapsto>
          encodeDB ((DB demoConfig)(sealedKey1 \<mapsto> sealedOld)) [sealedKey1, ''k''])\<rparr>)"
proof -
  have "2 * NonceSize demoAEAD \<le> length (rand demoWorld)"
    and "mkdir_ok demoWorld" and "write_ok demoWorld"
    by (simp_all add: NonceSize_demoAEAD demoWorld_def)
  from Store_ok [OF GCM_demoConfig this] show ?thesis
    unfolding stored1_def sealedKey1_def sealedOld_def
    by (simp add: NonceSize_demoAEAD Let_def) (simp add: demoWorld_def demoConfig_def)
qed

lemma config1:
  "GCM config1 = Some demoAEAD" "DB config1 = (DB demoConfig)(sealedKey1 \<mapsto> sealedOld)"
  "ConfigFile config1 = ''config''"
  by (simp_all add: config1_def stored1_eq GCM_demoConfig) (simp add: demoConfig_def)

lemma world1:
  "rand world1 = ''nonce-no-003nonce-no-004''" "mkdir_ok world1" "write_ok world1"
  by (simp_all add: world1_def stored1_eq) (simp_all add: demoWorld_def)

lemma stored2_eq:
  "stored2 = (None, config1\<lparr>DB := (DB config1)(sealedKey2 \<mapsto> sealedNew)\<rparr>,
     world1\<lparr>rand := [],
       files := (files world1)(''config'' \<mapsto>
          encodeDB ((DB config1)(sealedKey2 \<mapsto> sealedNew)) [sealedKey1, sealedKey2, ''k''])\<rparr>)"
proof -
  have "2 * NonceSize demoAEAD \<le> length (rand world1)"
    by (simp add: NonceSize_demoAEAD world1)
  from Store_ok [OF config1(1) this world1(2,3)] show ?thesis
    unfolding stored2_def sealedKey2_def sealedNew_def config1_def [symmetric] world1_def [symmetric]
    by (simp add: NonceSize_demoAEAD Let_def world1(1) config1(3))
qed

lemma config2:
  "GCM config2 = Some demoAEAD"
  "DB config2 = (DB demoConfig)(sealedKey1 \<mapsto> sealedOld, sealedKey2 \<mapsto> sealedNew)"
  "ConfigFile config2 = ''config''"
  by (simp_all add: config2_def stored2_eq config1)

lemma world2: "mkdir_ok world2" "write_ok world2"
  by (simp_all add: world2_def stored2_eq world1)

lemma entry1_config1: "entry_opens config1 sealedKey1 = Some (''api.key'', ''old'')"
proof (rule entry_opensI)
  show "sealedKey1 \<noteq> ''k''"
    by (rule sealed_distinct)
  show "DB config1 sealedKey1 = Some sealedOld"
    by (simp add: config1)
  show "DecodeString sealedKey1
        = Some (Seal demoAEAD ''nonce-no-001'' ''nonce-no-001'' ''api.key'' [])"
    unfolding sealedKey1_def by (rule DecodeString_EncodeToString)
  show "Decrypt config1 (Seal demoAEAD ''nonce-no-001'' ''nonce-no-001'' ''api.key'' [])
        = Inr ''api.key''"
    by (rule Decrypt_demo) (simp_all add: config1)
  show "DecodeString sealedOld = Some (Seal demoAEAD ''nonce-no-002'' ''nonce-no-002'' ''old'' [])"
    unfolding sealedOld_def by (rule DecodeString_EncodeToString)
  show "Decrypt config1 (Seal demoAEAD ''nonce-no-002'' ''nonce-no-002'' ''old'' []) = Inr ''old''"
    by (rule Decrypt_demo) (simp_all add: config1)
qed

lemma entry1_config2: "entry_opens config2 sealedKey1 = Some (''api.key'', ''old'')"
proof -
  have "DB config2 sealedKey1 = DB config1 sealedKey1"
    using sealed_distinct(1) by (simp add: config1 config2)
  then show ?thesis
    using entry_opens_GCM [of config2 config1 sealedKey1] entry1_config1
    by (simp add: config1 config2)
qed

lemma entry2_config2: "entry_opens config2 sealedKey2 = Some (''api.key'', ''new'')"
proof (rule entry_opensI)
  show "sealedKey2 \<noteq> ''k''"
    by (rule sealed_distinct)
  show "DB config2 sealedKey2 = Some sealedNew"
    by (simp add: config2)
  show "DecodeString sealedKey2
        = Some (Seal demoAEAD ''nonce-no-003'' ''nonce-no-003'' ''api.key'' [])"
    unfolding sealedKey2_def by (rule DecodeString_EncodeToString)
  show "Decrypt config2 (Seal demoAEAD ''nonce-no-003'' ''nonce-no-003'' ''api.key'' [])
        = Inr ''api.key''"
    by (rule Decrypt_demo) (simp_all add: config2)
  show "DecodeString sealedNew = Some (Seal demoAEAD ''nonce-no-004'' ''nonce-no-004'' ''new'' [])"
    unfolding sealedNew_def by (rule DecodeString_EncodeToString)
  show "Decrypt config2 (Seal demoAEAD ''nonce-no-004'' ''nonce-no-004'' ''new'' []) = Inr ''new''"
    by (rule Decrypt_demo) (simp_all add: config2)
qed

theorem C1_store_again_keeps_old_entry_witness:
  "\<exists>ks'. map_range (DB config2) ks' \<and> Retrieve config2 ks' ''api.key'' = Inr ''old''"
proof -
  have fin: "finite (dom (DB config1))"
    by (simp add: config1 demoConfig_def noDB_def)
  have fresh: "map_option (take (NonceSize demoAEAD)) (DecodeString sealedKey1)
               \<noteq> Some (take (NonceSize demoAEAD) (rand world1))"
    by (simp add: sealedKey1_def DecodeString_EncodeToString world1 NonceSize_demoAEAD)
       (simp add: demoAEAD_def)
  have st: "Store config1 [sealedKey1, sealedKey2, ''k''] world1 ''api.key'' ''new''
            = (None, config2, world2)"
    using stored2_eq
    by (simp add: stored2_def config1_def [symmetric] world1_def [symmetric] config2_def world2_def)
  show ?thesis
    using C1_store_again_keeps_old_entry [OF config1(1) demoAEAD_ok fin entry1_config1 fresh st] .
qed

lemma Delete_range_hit:
  assumes "k1 \<noteq> ''k''" and "DecodeString k1 = Some kb" and "Decrypt c kb = Inr key"
    and "mkdir_ok w" and "write_ok w"
  shows "Delete_range c ((k1, v1) # es) ks' w key
         = (None, c\<lparr>DB := (DB c)(k1 := None)\<rparr>,
            w\<lparr>files := (files w)(ConfigFile c \<mapsto> encodeDB ((DB c)(k1 := None)) ks')\<rparr>)"
  using assms by (simp add: Let_def writeSecretsFile_ok)

lemma deleted_eq:
  "deleted = (None, config2\<lparr>DB := (DB config2)(sealedKey1 := None)\<rparr>,
     world2\<lparr>files := (files world2)(''config'' \<mapsto>
        encodeDB ((DB config2)(sealedKey1 := None)) [sealedKey2, ''k''])\<rparr>)"
proof -
  obtain rest where r: "range_over (DB config2) [sealedKey1, sealedKey2, ''k'']
                        = (sealedKey1, sealedOld) # rest"
    using sealed_distinct(1) by (simp add: range_over_Cons config2)
  have kb: "DecodeString sealedKey1
            = Some (Seal demoAEAD ''nonce-no-001'' ''nonce-no-001'' ''api.key'' [])"
    unfolding sealedKey1_def by (rule DecodeString_EncodeToString)
  have dk: "Decrypt config2 (Seal demoAEAD ''nonce-no-001'' ''nonce-no-001'' ''api.key'' [])
            = Inr ''api.key''"
    by (rule Decrypt_demo) (simp_all add: config2)
  show ?thesis
    unfolding deleted_def config2_def [symmetric] world2_def [symmetric] Delete_def r
    using Delete_range_hit [OF sealed_distinct(2) kb dk world2] by (simp add: config2(3))
qed

lemma config3:
  "GCM config3 = Some demoAEAD" "DB config3 = (DB config2)(sealedKey1 := None)"
  by (simp_all add: config3_def deleted_eq config2)

lemma map_range_config3: "map_range (DB config3) [sealedKey2, ''k'']"
  using sealed_distinct
  by (auto simp: map_range_def config3 config2 demoConfig_def noDB_def split: if_splits)

theorem C9_delete_leaves_other_entry_witness:
  "Retrieve config3 [sealedKey2, ''k''] ''api.key'' \<noteq> Inl (KeyNotFound ''api.key'')
   \<and> (\<exists>keys. ListKeys config3 [sealedKey2, ''k''] = Inr keys \<and> ''api.key'' \<in> set keys)"
proof -
  have del: "Delete config2 [sealedKey1, sealedKey2, ''k''] [sealedKey2, ''k''] world2 ''api.key''
             = (None, config3, snd (snd deleted))"
    using deleted_eq
    by (simp add: deleted_def config2_def [symmetric] world2_def [symmetric] config3_def)
  show ?thesis
    using C9_delete_leaves_other_entry [OF config2(1) entry1_config2 entry2_config2
        sealed_distinct(1) del map_range_config3] .
qed

text \<open>The two orders of the range after the second \<open>Store\<close>, and what is left after \<open>Delete\<close>.\<close>

lemma Retrieve_config2_old_first:
  "Retrieve config2 [sealedKey1, sealedKey2, ''k''] ''api.key'' = Inr ''old''"
proof -
  obtain ev kb vb where "DB config2 sealedKey1 = Some ev" "DecodeString sealedKey1 = Some kb"
    "Decrypt config2 kb = Inr ''api.key''" "DecodeString ev = Some vb"
    "Decrypt config2 vb = Inr ''old''"
    using entry_opensD(2) [OF entry1_config2] by blast
  then show ?thesis
    using sealed_distinct(2) by (simp add: Retrieve_def range_over_Cons)
qed

lemma Retrieve_config2_new_first:
  "Retrieve config2 [sealedKey2, sealedKey1, ''k''] ''api.key'' = Inr ''new''"
proof -
  obtain ev kb vb where "DB config2 sealedKey2 = Some ev" "DecodeString sealedKey2 = Some kb"
    "Decrypt config2 kb = Inr ''api.key''" "DecodeString ev = Some vb"
    "Decrypt config2 vb = Inr ''new''"
    using entry_opensD(2) [OF entry2_config2] by blast
  then show ?thesis
    using sealed_distinct(3) by (simp add: Retrieve_def range_over_Cons)
qed

lemma map_range_config2:
  "map_range (DB config2) [sealedKey1, sealedKey2, ''k'']"
  "map_range (DB config2) [sealedKey2, sealedKey1, ''k'']"
  using sealed_distinct
  by (auto simp: map_range_def config2 demoConfig_def noDB_def split: if_splits)

lemma DecodeString_junk: "DecodeString ''junk!'' = None" "DecodeString ''???'' = None"
proof -
  have "decodeQuanta ''junk!'' = None"
    by (simp split: option.splits)
  then show "DecodeString ''junk!'' = None"
    by (simp add: DecodeString_def)
  show "DecodeString ''???'' = None"
    by (simp add: DecodeString_def)
qed

lemma Decrypt_key1:
  assumes "GCM c = Some demoAEAD"
  shows "map_option (Decrypt c) (DecodeString sealedKey1) = Some (Inr ''api.key'')"
  using Decrypt_demo [OF assms, of "''nonce-no-001''" "''api.key''"]
  by (simp add: sealedKey1_def DecodeString_EncodeToString)

lemma passed_over_tampered: "\<forall>k \<in> set [''junk!'', shortKey, ''k'', sealedHost, sealedKey2].
    passed_over tamperedConfig ''api.key'' k"
proof -
  have g: "GCM tamperedConfig = Some demoAEAD"
    by (simp add: tamperedConfig_def demoConfig_def)
  have 1: "key_unopened tamperedConfig ''junk!''"
    by (simp add: key_unopened_def DecodeString_junk)
  have 2: "key_unopened tamperedConfig shortKey"
    unfolding key_unopened_def shortKey_def DecodeString_EncodeToString
    by (simp add: Decrypt_def g NonceSize_demoAEAD)
  have "Decrypt tamperedConfig (Seal demoAEAD ''nonce-no-005'' ''nonce-no-005'' ''db.host'' [])
        = Inr ''db.host''"
    using g by (rule Decrypt_demo) simp
  then have 3: "key_opens_other tamperedConfig ''api.key'' sealedHost"
    unfolding key_opens_other_def sealedHost_def DecodeString_EncodeToString by simp
  have "Decrypt tamperedConfig (Seal demoAEAD ''nonce-no-003'' ''nonce-no-003'' ''api.key'' [])
        = Inr ''api.key''"
    using g by (rule Decrypt_demo) simp
  moreover have "DB tamperedConfig sealedKey2 = Some ''???''"
    using sealed_distinct(1) by (simp add: tamperedConfig_def)
  ultimately have 4: "matched_not_base64 tamperedConfig ''api.key'' sealedKey2"
    unfolding matched_not_base64_def
    by (simp add: sealedKey2_def DecodeString_EncodeToString DecodeString_junk)
  show ?thesis
    using 1 2 3 4 by (simp add: passed_over_def)
qed

lemma map_range_tampered: "map_range (DB tamperedConfig) tamperedOrder"
proof -
  have p: "Seal demoAEAD ''nonce-no-005'' ''nonce-no-005'' ''db.host'' [] \<noteq> ''short''"
    "Seal demoAEAD ''nonce-no-005'' ''nonce-no-005'' ''db.host'' []
     \<noteq> Seal demoAEAD ''nonce-no-001'' ''nonce-no-001'' ''api.key'' []"
    "Seal demoAEAD ''nonce-no-005'' ''nonce-no-005'' ''db.host'' []
     \<noteq> Seal demoAEAD ''nonce-no-003'' ''nonce-no-003'' ''api.key'' []"
    "Seal demoAEAD ''nonce-no-001'' ''nonce-no-001'' ''api.key'' [] \<noteq> ''short''"
    "Seal demoAEAD ''nonce-no-003'' ''nonce-no-003'' ''api.key'' [] \<noteq> ''short''"
    by (simp_all add: demoAEAD_def)
  have d: "sealedHost \<noteq> shortKey" "sealedHost \<noteq> sealedKey1" "sealedHost \<noteq> sealedKey2"
    "sealedKey1 \<noteq> shortKey" "sealedKey2 \<noteq> shortKey"
    unfolding sealedHost_def shortKey_def sealedKey1_def sealedKey2_def
    using p EncodeToString_inj by blast+
  have k: "shortKey \<noteq> ''k''" "sealedHost \<noteq> ''k''"
    by (simp_all add: shortKey_def sealedHost_def EncodeToString_not_k)
  have "EncodeToString bs \<noteq> ''junk!''" for bs
  proof
    assume "EncodeToString bs = ''junk!''"
    then have "length (EncodeToString bs) = 5"
      by simp
    then show False
      using length_EncodeToString [of bs] by simp
  qed
  then have j: "shortKey \<noteq> ''junk!''" "sealedHost \<noteq> ''junk!''" "sealedKey1 \<noteq> ''junk!''"
    "sealedKey2 \<noteq> ''junk!''"
    unfolding sealedHost_def shortKey_def sealedKey1_def sealedKey2_def by blast+
  have dom: "dom (DB tamperedConfig) = {''junk!'', shortKey, ''k'', sealedHost, sealedKey2, sealedKey1}"
    by (auto simp: tamperedConfig_def demoConfig_def noDB_def split: if_splits)
  show ?thesis
    unfolding map_range_def dom tamperedOrder_def
    using d k j sealed_distinct by auto
qed

theorem C2_scan_skips_and_propagates_witness:
  "Retrieve tamperedConfig tamperedOrder ''api.key'' = Inl FailedToDecrypt"
proof -
  have g: "GCM tamperedConfig = Some demoAEAD"
    by (simp add: tamperedConfig_def demoConfig_def)
  have 2: "DB tamperedConfig sealedKey1 = Some tamperedOld"
    by (simp add: tamperedConfig_def)
  have 3: "DecodeString sealedKey1
           = Some (Seal demoAEAD ''nonce-no-001'' ''nonce-no-001'' ''api.key'' [])"
    unfolding sealedKey1_def by (rule DecodeString_EncodeToString)
  have 4: "Decrypt tamperedConfig (Seal demoAEAD ''nonce-no-001'' ''nonce-no-001'' ''api.key'' [])
           = Inr ''api.key''"
    using g by (rule Decrypt_demo) simp
  have 5: "DecodeString tamperedOld = Some (''nonce-no-002'' @ ''nonce-no-00X'' @ ''!'' @ ''dlo'')"
    unfolding tamperedOld_def by (rule DecodeString_EncodeToString)
  have 6: "Decrypt tamperedConfig (''nonce-no-002'' @ ''nonce-no-00X'' @ ''!'' @ ''dlo'')
           = Inl FailedToDecrypt"
    by (simp add: Decrypt_def g) (simp add: demoAEAD_def)
  have o: "tamperedOrder = [''junk!'', shortKey, ''k'', sealedHost, sealedKey2] @ sealedKey1 # []"
    by (simp add: tamperedOrder_def)
  show ?thesis
    unfolding o
    using C2_scan_skips_and_propagates [OF passed_over_tampered,
        of "[]" sealedKey1 tamperedOld
           "Seal demoAEAD ''nonce-no-001'' ''nonce-no-001'' ''api.key'' []"
           "''nonce-no-002'' @ ''nonce-no-00X'' @ ''!'' @ ''dlo''" FailedToDecrypt]
      sealed_distinct(2) 2 3 4 5 6
    by (simp only:) simp
qed

text \<open>
  An entry whose key decrypts to the requested key and whose stored value is not
  base64 is passed over like an entry with a foreign key: \<open>Retrieve\<close> ends with
  key-not-found, not with an authentication error.
\<close>

theorem C2_matched_entry_skipped_counterexample:
  "map_option (Decrypt corruptConfig) (DecodeString sealedKey1) = Some (Inr ''api.key'')
   \<and> DB corruptConfig sealedKey1 = Some ''???''
   \<and> DecodeString ''???'' = None
   \<and> Retrieve corruptConfig [sealedKey1, ''k''] ''api.key'' = Inl (KeyNotFound ''api.key'')"
proof -
  have g: "GCM corruptConfig = Some demoAEAD"
    by (simp add: corruptConfig_def demoConfig_def)
  have db: "DB corruptConfig sealedKey1 = Some ''???''"
    "DB corruptConfig ''k'' = Some (Sprintf_x demoKey)"
    using sealed_distinct(2) by (simp_all add: corruptConfig_def demoConfig_def)
  have 3: "DecodeString sealedKey1
           = Some (Seal demoAEAD ''nonce-no-001'' ''nonce-no-001'' ''api.key'' [])"
    unfolding sealedKey1_def by (rule DecodeString_EncodeToString)
  have 4: "Decrypt corruptConfig (Seal demoAEAD ''nonce-no-001'' ''nonce-no-001'' ''api.key'' [])
           = Inr ''api.key''"
    using g by (rule Decrypt_demo) simp
  have "Retrieve corruptConfig [sealedKey1, ''k''] ''api.key'' = Inl (KeyNotFound ''api.key'')"
    using sealed_distinct(2) by (simp add: Retrieve_def range_over_Cons db 3 4 DecodeString_junk)
  then show ?thesis
    using Decrypt_key1 [OF g] db(1) DecodeString_junk(2) by simp
qed

lemma encodeDB_single:
  "encodeDB (Map.empty(k \<mapsto> v)) [k] = MagicHeader @ PutUint32 Version @ PutUint32 1 @ encodeEntry (k, v)"
  by (simp add: encodeDB_def range_over_Cons)

text \<open>
  C3, where the code departs from it. The file written when a store is first
  created consists of the header and one entry whose key is the plain byte \<open>k\<close> and
  whose value is the master key in hexadecimal: neither is sealed.
\<close>

theorem C3_master_key_written_in_clear:
  assumes "files w filename = None" and "rand w = key @ rest" and "length key = 32"
    and "mkdir_ok w" and "write_ok w"
  shows "files (snd (NewConfigWithFile L filename [''k''] w)) filename
         = Some (MagicHeader @ PutUint32 Version @ PutUint32 1
                 @ PutUint32 1 @ ''k'' @ PutUint32 64 @ Sprintf_x key)"
proof -
  let ?w1 = "w\<lparr>rand := rest\<rparr>"
  let ?c1 = "\<lparr>ConfigFile = filename, Key = [], GCM = None,
               DB = Map.empty(''k'' \<mapsto> Sprintf_x key)\<rparr>"
  let ?w2 = "?w1\<lparr>files := (files ?w1)(filename \<mapsto> encodeDB (DB ?c1) [''k''])\<rparr>"
  have r: "ReadFull w 32 = (Some key, ?w1)"
    using assms(2,3) by (simp add: ReadFull_def)
  have wr: "writeSecretsFile ?c1 [''k''] ?w1 = (None, ?w2)"
    using writeSecretsFile_ok [of ?w1 ?c1 "[''k'']"] assms(4,5) by simp
  have "NewConfigWithFile L filename [''k''] w = (loadKeyAndCipher L ?c1 ?w2, ?w2)"
    using assms(1) by (simp add: NewConfigWithFile_def Let_def findDataFile_def r wr)
  then have "files (snd (NewConfigWithFile L filename [''k''] w)) filename
             = Some (encodeDB (Map.empty(''k'' \<mapsto> Sprintf_x key)) [''k''])"
    by simp
  moreover have "length (Sprintf_x key) = 64"
    using assms(3) by (simp add: Sprintf_x_def length_concat comp_def sum_list_triv)
  ultimately show ?thesis
    by (simp add: encodeDB_single encodeEntry_def)
qed

lemma Sprintf_x_demoKey:
  "Sprintf_x demoKey = ''3031323334353637383961626364656630313233343536373839616263646566''"
  by (simp add: Sprintf_x_def demoKey_def hexdigit_def)

theorem C3_master_key_written_in_clear_witness:
  "files (snd (NewConfigWithFile demoLib ''config'' [''k''] freshWorld)) ''config''
   = Some (''SCFG'' @ PutUint32 1 @ PutUint32 1 @ PutUint32 1 @ ''k'' @ PutUint32 64
           @ ''3031323334353637383961626364656630313233343536373839616263646566'')"
proof -
  have 1: "files freshWorld ''config'' = None"
    and 2: "rand freshWorld = demoKey @ ''nonce-no-001nonce-no-002''"
    and 3: "length demoKey = 32" and 4: "mkdir_ok freshWorld" and 5: "write_ok freshWorld"
    by (simp_all add: freshWorld_def demoKey_def)
  show ?thesis
    using C3_master_key_written_in_clear [OF 1 2 3 4 5, of demoLib]
    by (simp add: Sprintf_x_demoKey MagicHeader_def Version_def)
qed

end
